theory Spec2Isabelle
  imports
    Main
    "HOL-Library.Word"
    "HOL-Library.Char_ord"
    "HOL-Library.List_Lexorder"
    "HOL-Library.AList"
begin

unbundle bit_operations_syntax

section \<open>Data model of package mirror\<close>

text \<open>
  The Go source declares
  \<^verbatim>\<open>
  type (
      Folder map[string]struct{}
      File   map[string]int64
  )
  \<close>
  A Go map is modelled as the list of its entries in the order in which a
  \<^verbatim>\<open>for k, v := range m\<close> loop visits them. Go leaves that order unspecified, so a
  property of the program has to hold for every order, that is for every list. The keys
  of a Go map are pairwise different: \<open>distinct (map fst m)\<close> is the invariant of the
  representation, and a theorem that needs it says so. A lookup \<^verbatim>\<open>v, ok := m[k]\<close> is
  \<open>map_of m k\<close>, an assignment \<^verbatim>\<open>m[k] = v\<close> is \<open>AList.update k v m\<close> (overwrite the
  entry of \<open>k\<close>, or add one), \<^verbatim>\<open>len(m)\<close> is \<open>length m\<close>. Strings are byte sequences
  (\<open>char list\<close>), compared bytewise and lexicographically as Go's \<^verbatim>\<open><\<close> does; sizes
  are \<^verbatim>\<open>int64\<close>, a 64-bit word whose addition wraps around. Paths have the separator
  \<^verbatim>\<open>/\<close> of Unix-like systems; the functions of \<^verbatim>\<open>path/filepath\<close> and \<^verbatim>\<open>strings\<close> that
  the program calls are modelled after the Go library for that separator.
\<close>

type_synonym int64 = "64 word"
type_synonym Folder = "(string \<times> unit) list"
type_synonym File = "(string \<times> int64) list"

definition keys :: "('k \<times> 'v) list \<Rightarrow> 'k set" where
  "keys m = fst ` set m"

section \<open>The diff functions\<close>

text \<open>
  \<^verbatim>\<open>
  func MissingFolders(dst, src Folder) Folder {
      res := make(Folder)
      for folder, v := range src {
          if _, ok := dst[folder]; !ok {
              res[folder] = v
          }
      }
      return res
  }
  \<close>
  The loop is a recursion over the entries of \<open>src\<close> that threads \<open>res\<close>.
\<close>

fun MissingFolders_loop :: "Folder \<Rightarrow> Folder \<Rightarrow> Folder \<Rightarrow> Folder" where
  "MissingFolders_loop dst [] res = res"
| "MissingFolders_loop dst ((folder, v) # rest) res =
     (if map_of dst folder = None
      then MissingFolders_loop dst rest (AList.update folder v res)
      else MissingFolders_loop dst rest res)"

definition MissingFolders :: "Folder \<Rightarrow> Folder \<Rightarrow> Folder" where
  "MissingFolders dst src = MissingFolders_loop dst src []"

text \<open>
  \<^verbatim>\<open>
  func FoldersToClean(dst, src Folder) Folder {
      res := make(Folder)
      for folder, v := range dst {
          if _, ok := src[folder]; !ok {
              res[folder] = v
          }
      }
      return res
  }
  \<close>
\<close>

fun FoldersToClean_loop :: "Folder \<Rightarrow> Folder \<Rightarrow> Folder \<Rightarrow> Folder" where
  "FoldersToClean_loop src [] res = res"
| "FoldersToClean_loop src ((folder, v) # rest) res =
     (if map_of src folder = None
      then FoldersToClean_loop src rest (AList.update folder v res)
      else FoldersToClean_loop src rest res)"

definition FoldersToClean :: "Folder \<Rightarrow> Folder \<Rightarrow> Folder" where
  "FoldersToClean dst src = FoldersToClean_loop src dst []"

text \<open>
  \<^verbatim>\<open>
  func MissingFiles(dst, src File) (res File, totalSize int64) {
      res = make(File)
      for file, size := range src {
          if _size, ok := dst[file]; !ok || _size != size {
              res[file] = size
              totalSize += size
          }
      }
      return
  }
  \<close>
  The named results \<open>res\<close> and \<open>totalSize\<close> are the state of the loop.
\<close>

fun MissingFiles_loop :: "File \<Rightarrow> File \<Rightarrow> File \<times> int64 \<Rightarrow> File \<times> int64" where
  "MissingFiles_loop dst [] (res, totalSize) = (res, totalSize)"
| "MissingFiles_loop dst ((file, sz) # rest) (res, totalSize) =
     (if (case map_of dst file of None \<Rightarrow> True | Some sz' \<Rightarrow> sz' \<noteq> sz)
      then MissingFiles_loop dst rest (AList.update file sz res, totalSize + sz)
      else MissingFiles_loop dst rest (res, totalSize))"

definition MissingFiles :: "File \<Rightarrow> File \<Rightarrow> File \<times> int64" where
  "MissingFiles dst src = MissingFiles_loop dst src ([], 0)"

text \<open>
  \<^verbatim>\<open>
  func FilesToClean(dst, src File) (res File, totalSize int64) {
      res = make(File)
      for file, size := range dst {
          if _, ok := src[file]; !ok {
              res[file] = size
              totalSize += size
          }
      }
      return
  }
  \<close>
\<close>

fun FilesToClean_loop :: "File \<Rightarrow> File \<Rightarrow> File \<times> int64 \<Rightarrow> File \<times> int64" where
  "FilesToClean_loop src [] (res, totalSize) = (res, totalSize)"
| "FilesToClean_loop src ((file, sz) # rest) (res, totalSize) =
     (if map_of src file = None
      then FilesToClean_loop src rest (AList.update file sz res, totalSize + sz)
      else FilesToClean_loop src rest (res, totalSize))"

definition FilesToClean :: "File \<Rightarrow> File \<Rightarrow> File \<times> int64" where
  "FilesToClean dst src = FilesToClean_loop src dst ([], 0)"

section \<open>Library functions used by the path orderer\<close>

text \<open>
  \<^verbatim>\<open>strings.HasPrefix(s, prefix)\<close> of the Go library is
  \<^verbatim>\<open>len(s) >= len(prefix) && s[:len(prefix)] == prefix\<close>: a comparison of bytes that
  knows nothing of path separators.
\<close>

definition HasPrefix :: "string \<Rightarrow> string \<Rightarrow> bool" where
  "HasPrefix s pre = (length pre \<le> length s \<and> take (length pre) s = pre)"

text \<open>
  \<^verbatim>\<open>filepath.Clean\<close> (with the separator \<^verbatim>\<open>/\<close>) by the rules of its documentation:
  several separators count as one, every \<^verbatim>\<open>.\<close> element is dropped, an inner \<^verbatim>\<open>..\<close>
  element is dropped together with the element before it when that is not itself
  \<^verbatim>\<open>..\<close>, a \<^verbatim>\<open>..\<close> that begins a rooted path is dropped, the result ends in a separator
  only when it is the root, and the empty result is \<^verbatim>\<open>.\<close>. \<open>elements\<close> splits a path
  at the separators, \<open>cleanElements\<close> applies the rules from left to right to the
  elements written so far, \<open>joinElements\<close> puts single separators between them.
\<close>

fun elements :: "string \<Rightarrow> string \<Rightarrow> string list" where
  "elements cur [] = [cur]"
| "elements cur (c # cs) =
     (if c = CHR ''/'' then cur # elements [] cs else elements (cur @ [c]) cs)"

fun cleanElements :: "bool \<Rightarrow> string list \<Rightarrow> string list \<Rightarrow> string list" where
  "cleanElements rooted out [] = out"
| "cleanElements rooted out (e # es) =
     (if e = [] \<or> e = ''.'' then cleanElements rooted out es
      else if e = ''..'' then
        (if out \<noteq> [] \<and> last out \<noteq> ''..'' then cleanElements rooted (butlast out) es
         else if \<not> rooted then cleanElements rooted (out @ [''..'']) es
         else cleanElements rooted out es)
      else cleanElements rooted (out @ [e]) es)"

fun joinElements :: "string list \<Rightarrow> string" where
  "joinElements [] = []"
| "joinElements [e] = e"
| "joinElements (e # es) = e @ ''/'' @ joinElements es"

definition Clean :: "string \<Rightarrow> string" where
  "Clean path =
     (if path = [] then ''.''
      else let rooted = (hd path = CHR ''/'');
               out = joinElements (cleanElements rooted [] (elements [] path))
           in if rooted then ''/'' @ out else if out = [] then ''.'' else out)"

text \<open>
  \<^verbatim>\<open>filepath.Dir(path)\<close> cuts the path after its last separator and cleans what is left:
  \<^verbatim>\<open>
  i := len(path) - 1
  for i >= 0 && !os.IsPathSeparator(path[i]) { i-- }
  dir := Clean(path[:i+1])
  \<close>
\<close>

definition Dir :: "string \<Rightarrow> string" where
  "Dir path = Clean (rev (dropWhile (\<lambda>c. c \<noteq> CHR ''/'') (rev path)))"

section \<open>The path orderer\<close>

text \<open>
  Reading a slice outside its bounds panics in Go. \<open>index\<close> is the read with the check
  written out; the index is a Go \<^verbatim>\<open>int\<close>, which can be negative.
\<close>

datatype panic = IndexOutOfRange

definition index :: "'a list \<Rightarrow> int \<Rightarrow> panic + 'a" where
  "index xs i = (if 0 \<le> i \<and> i < int (length xs) then Inr (xs ! nat i) else Inl IndexOutOfRange)"

text \<open>
  \<^verbatim>\<open>
  func sortFoldersOrFiles(m interface{}) []string {
      _, isFolder := m.(Folder)
      _, isFile := m.(File)
      if !isFolder && !isFile {
          panic(ErrOnlyFoldersOrFiles)
      }
      res := make([]string, 0, reflect.ValueOf(m).Len())
      for _, v := range reflect.ValueOf(m).MapKeys() {
          res = append(res, v.String())
      }
      sort.Slice(res, func(i, j int) bool { return res[i] < res[j] })
      return res
  }
  \<close>
  The argument is a \<open>Folder\<close> or a \<open>File\<close> by its type here, so the panic of the
  dynamic check has no counterpart. The keys come in the order of the map and are sorted
  ascending; on the distinct keys of a map the sorted slice is unique, whatever
  algorithm \<^verbatim>\<open>sort.Slice\<close> runs.
\<close>

definition sortFoldersOrFiles :: "(string \<times> 'v) list \<Rightarrow> string list" where
  "sortFoldersOrFiles m = sort (map fst m)"

text \<open>
  \<^verbatim>\<open>
  func keepFoldersWithLongestPrefix(folders Folder) (res []string) {
      sorted := sortFoldersOrFiles(folders)
      for i := 0; i < len(folders)-1; i++ {
          if filepath.Dir(sorted[i+1]) == filepath.Dir(sorted[i]) ||
             !strings.HasPrefix(sorted[i+1], sorted[i]) {
              res = append(res, sorted[i])
          }
      }
      res = append(res, sorted[len(folders)-1])
      return
  }
  \<close>
  \<open>longestLoop\<close> is the \<^verbatim>\<open>for\<close> loop with its counter \<open>i\<close>, the bound \<open>n = len(folders)\<close>
  and the slice \<open>res\<close> built so far.
\<close>

function longestLoop :: "string list \<Rightarrow> int \<Rightarrow> int \<Rightarrow> string list \<Rightarrow> panic + string list" where
  "longestLoop srt n i res =
     (if i < n - 1 then
        (case index srt (i + 1) of
           Inl e \<Rightarrow> Inl e
         | Inr nxt \<Rightarrow>
             (case index srt i of
                Inl e \<Rightarrow> Inl e
              | Inr cur \<Rightarrow>
                  longestLoop srt n (i + 1)
                    (if Dir nxt = Dir cur \<or> \<not> HasPrefix nxt cur then res @ [cur] else res)))
      else Inr res)"
  by pat_completeness auto
termination
  by (relation "measure (\<lambda>(srt, n, i, res). nat (n - 1 - i))") auto

definition keepFoldersWithLongestPrefix :: "Folder \<Rightarrow> panic + string list" where
  "keepFoldersWithLongestPrefix folders =
     (let srt = sortFoldersOrFiles folders in
      case longestLoop srt (int (length folders)) 0 [] of
        Inl e \<Rightarrow> Inl e
      | Inr res \<Rightarrow>
          (case index srt (int (length folders) - 1) of
             Inl e \<Rightarrow> Inl e
           | Inr lst \<Rightarrow> Inr (res @ [lst])))"

text \<open>
  \<^verbatim>\<open>
  func keepFoldersWithShortestPrefix(folders Folder) (res []string) {
      sorted := sortFoldersOrFiles(folders)
      for i := len(folders) - 1; i > 0; i-- {
          if filepath.Dir(sorted[i]) == filepath.Dir(sorted[i-1]) ||
             !strings.HasPrefix(sorted[i], sorted[i-1]) {
              res = append(res, sorted[i])
          }
      }
      res = append(res, sorted[0])
      return
  }
  \<close>
\<close>

function shortestLoop :: "string list \<Rightarrow> int \<Rightarrow> string list \<Rightarrow> panic + string list" where
  "shortestLoop srt i res =
     (if i > 0 then
        (case index srt i of
           Inl e \<Rightarrow> Inl e
         | Inr cur \<Rightarrow>
             (case index srt (i - 1) of
                Inl e \<Rightarrow> Inl e
              | Inr prv \<Rightarrow>
                  shortestLoop srt (i - 1)
                    (if Dir cur = Dir prv \<or> \<not> HasPrefix cur prv then res @ [cur] else res)))
      else Inr res)"
  by pat_completeness auto
termination
  by (relation "measure (\<lambda>(srt, i, res). nat i)") auto

definition keepFoldersWithShortestPrefix :: "Folder \<Rightarrow> panic + string list" where
  "keepFoldersWithShortestPrefix folders =
     (let srt = sortFoldersOrFiles folders in
      case shortestLoop srt (int (length folders) - 1) [] of
        Inl e \<Rightarrow> Inl e
      | Inr res \<Rightarrow>
          (case index srt 0 of
             Inl e \<Rightarrow> Inl e
           | Inr frst \<Rightarrow> Inr (res @ [frst])))"

declare longestLoop.simps [simp del] shortestLoop.simps [simp del]

section \<open>Library functions used by the tree indexer\<close>

text \<open>
  Go's \<^verbatim>\<open>error\<close> values of the walk: the error of \<^verbatim>\<open>os.ReadDir\<close>, of
  \<^verbatim>\<open>DirEntry.Info\<close> and of \<^verbatim>\<open>filepath.Rel\<close>.
\<close>

datatype ioerror = ErrReadDir | ErrInfo | ErrRel

text \<open>
  \<^verbatim>\<open>filepath.Join(path, name)\<close> drops empty elements, puts a separator between the
  others and cleans the result; of two empty elements it makes the empty string.
\<close>

definition Join :: "string \<Rightarrow> string \<Rightarrow> string" where
  "Join path name =
     (if path \<noteq> [] then Clean (path @ ''/'' @ name)
      else if name \<noteq> [] then Clean name
      else [])"

text \<open>
  \<^verbatim>\<open>filepath.Rel(basepath, targpath)\<close> cleans both paths and returns \<^verbatim>\<open>.\<close> when they
  are the same; a base \<^verbatim>\<open>.\<close> counts as the empty path. It fails when one path begins
  with a separator and the other does not. Then it walks the two paths element by
  element while the elements agree (\<open>dropCommon\<close>; \<open>pathElements\<close> are the elements of
  a cleaned path, where the empty path has none and the root has the single empty
  element before its separator). It fails when the first element left of the base is
  \<^verbatim>\<open>..\<close>; otherwise the result goes up by one \<^verbatim>\<open>..\<close> for every element left of the base
  and then down the elements left of the target.
\<close>

definition pathElements :: "string \<Rightarrow> string list" where
  "pathElements p = (let es = elements [] p in if last es = [] then butlast es else es)"

fun dropCommon :: "string list \<Rightarrow> string list \<Rightarrow> string list \<times> string list" where
  "dropCommon (b # bs) (t # ts) = (if t = b then dropCommon bs ts else (b # bs, t # ts))"
| "dropCommon bs ts = (bs, ts)"

definition Rel :: "string \<Rightarrow> string \<Rightarrow> ioerror + string" where
  "Rel basepath targpath =
     (let base = Clean basepath; targ = Clean targpath in
      if targ = base then Inr ''.''
      else
        let base = (if base = ''.'' then [] else base);
            baseSlashed = (base \<noteq> [] \<and> hd base = CHR ''/'');
            targSlashed = (targ \<noteq> [] \<and> hd targ = CHR ''/'')
        in if baseSlashed \<noteq> targSlashed then Inl ErrRel
           else
             (case dropCommon (pathElements base) (pathElements targ) of
                (b, t) \<Rightarrow>
                  if b \<noteq> [] \<and> hd b = ''..'' then Inl ErrRel
                  else if b \<noteq> [] then Inr (joinElements (map (\<lambda>_. ''..'') b @ t))
                  else Inr (joinElements t)))"

section \<open>The tree indexer\<close>

text \<open>
  \<^verbatim>\<open>info.Mode()\<close> is an \<^verbatim>\<open>fs.FileMode\<close>, a \<^verbatim>\<open>uint32\<close> whose bit
  \<^verbatim>\<open>ModeSymlink = 1 << (32 - 1 - 4)\<close> marks a symbolic link; \<^verbatim>\<open>info.Size()\<close> is an
  \<^verbatim>\<open>int64\<close>. The constant \<^verbatim>\<open>FolderToIgnore = "dont_mirror"\<close> is declared in the
  source.
\<close>

record FileInfo =
  Mode :: "32 word"
  Size :: int64

definition ModeSymlink :: "32 word" where
  "ModeSymlink = push_bit 27 1"

definition FolderToIgnore :: string where
  "FolderToIgnore = ''dont_mirror''"

text \<open>
  The file system as the walk sees it. \<^verbatim>\<open>os.ReadDir\<close> of a directory returns its
  entries or an error. An entry has a name; \<^verbatim>\<open>item.IsDir()\<close> tells whether it is a
  directory, and then the tree holds what \<^verbatim>\<open>os.ReadDir\<close> will return for it; for any
  other entry the tree holds what \<^verbatim>\<open>item.Info()\<close> returns, a file info or (\<open>None\<close>)
  an error. A symbolic link is an entry of the second kind, also when it points to a
  directory: \<^verbatim>\<open>IsDir\<close> reports the type of the entry itself.
\<close>

datatype DirEntry = IsDir string Listing | NotDir string "FileInfo option"
  and Listing = Entries "DirEntry list" | ReadDirFails

text \<open>
  \<^verbatim>\<open>
  func readFolder(path string, startingPath string, folders Folder, files File) error {
      items, err := os.ReadDir(path)
      if err != nil {
          return err
      }
      for _, item := range items {
          currentName := item.Name()
          currentPath := filepath.Join(path, currentName)
          currentTrimmedPath, err := filepath.Rel(startingPath, currentPath)
          if err != nil {
              return err
          }
          if item.IsDir() {
              if currentName != FolderToIgnore {
                  folders[currentTrimmedPath] = struct{}{}
                  if err = readFolder(currentPath, startingPath, folders, files); err != nil {
                      return err
                  }
              }
          } else {
              info, err := item.Info()
              if err != nil {
                  return err
              }
              if info.Mode()&os.ModeSymlink != os.ModeSymlink {
                  files[currentTrimmedPath] = info.Size()
              }
          }
      }
      return nil
  }
  \<close>
  The two maps are changed in place; the model threads them and returns them with the
  error (\<open>None\<close> for \<^verbatim>\<open>nil\<close>), so that what was recorded before an error is still
  there, as it is in the maps of the caller. \<open>readFolder\<close> takes the listing of \<open>path\<close>
  in the place of the call of \<^verbatim>\<open>os.ReadDir\<close>, \<open>readItems\<close> is the loop over the items.
\<close>

fun readFolder :: "string \<Rightarrow> string \<Rightarrow> Listing \<Rightarrow> Folder \<Rightarrow> File \<Rightarrow> Folder \<times> File \<times> ioerror option"
  and readItems :: "string \<Rightarrow> string \<Rightarrow> DirEntry list \<Rightarrow> Folder \<Rightarrow> File \<Rightarrow> Folder \<times> File \<times> ioerror option"
  where
  "readFolder path startingPath ReadDirFails folders files = (folders, files, Some ErrReadDir)"
| "readFolder path startingPath (Entries items) folders files =
     readItems path startingPath items folders files"
| "readItems path startingPath [] folders files = (folders, files, None)"
| "readItems path startingPath (IsDir currentName listing # rest) folders files =
     (let currentPath = Join path currentName in
      case Rel startingPath currentPath of
        Inl err \<Rightarrow> (folders, files, Some err)
      | Inr currentTrimmedPath \<Rightarrow>
          if currentName \<noteq> FolderToIgnore then
            (case readFolder currentPath startingPath listing
                    (AList.update currentTrimmedPath () folders) files of
               (folders', files', Some err) \<Rightarrow> (folders', files', Some err)
             | (folders', files', None) \<Rightarrow> readItems path startingPath rest folders' files')
          else readItems path startingPath rest folders files)"
| "readItems path startingPath (NotDir currentName info # rest) folders files =
     (let currentPath = Join path currentName in
      case Rel startingPath currentPath of
        Inl err \<Rightarrow> (folders, files, Some err)
      | Inr currentTrimmedPath \<Rightarrow>
          (case info of
             None \<Rightarrow> (folders, files, Some ErrInfo)
           | Some i \<Rightarrow>
               if Mode i AND ModeSymlink \<noteq> ModeSymlink
               then readItems path startingPath rest folders
                      (AList.update currentTrimmedPath (Size i) files)
               else readItems path startingPath rest folders files))"

definition ReadFolder :: "string \<Rightarrow> Listing \<Rightarrow> Folder \<times> File \<times> ioerror option" where
  "ReadFolder path root = readFolder path path root [] []"

declare readItems.simps(2,3) [simp del]

section \<open>The destination after a copy run\<close>



section \<open>Notions used in the statements and proofs\<close>

text \<open>An entry of the source index that \<open>MissingFiles\<close> has to report.\<close>

definition differs :: "File \<Rightarrow> string \<times> int64 \<Rightarrow> bool" where
  "differs dst = (\<lambda>(file, sz). map_of dst file \<noteq> Some sz)"

text \<open>
  What the two loops of the path orderer keep, by recursion over the slice they walk:
  the ascending walk looks at an element and its successor, the descending walk at an
  element and its predecessor (the next element of the reversed slice).
\<close>

fun keptAscending :: "string list \<Rightarrow> string list" where
  "keptAscending (cur # nxt # rest) =
     (if Dir nxt = Dir cur \<or> \<not> HasPrefix nxt cur then [cur] else []) @ keptAscending (nxt # rest)"
| "keptAscending _ = []"

fun keptDescending :: "string list \<Rightarrow> string list" where
  "keptDescending (cur # prv # rest) =
     (if Dir cur = Dir prv \<or> \<not> HasPrefix cur prv then [cur] else []) @ keptDescending (prv # rest)"
| "keptDescending _ = []"

text \<open>
  The names a directory listing can hold: not empty, neither \<^verbatim>\<open>.\<close> nor \<^verbatim>\<open>..\<close>, and
  without a separator. A file system tree is valid when all its names are.
\<close>

definition validName :: "string \<Rightarrow> bool" where
  "validName n \<longleftrightarrow> n \<noteq> [] \<and> n \<noteq> ''.'' \<and> n \<noteq> ''..'' \<and> CHR ''/'' \<notin> set n"

fun validListing :: "Listing \<Rightarrow> bool" and validEntries :: "DirEntry list \<Rightarrow> bool" where
  "validListing ReadDirFails = True"
| "validListing (Entries items) = validEntries items"
| "validEntries [] = True"
| "validEntries (IsDir name listing # rest) =
     (validName name \<and> validListing listing \<and> validEntries rest)"
| "validEntries (NotDir name info # rest) = (validName name \<and> validEntries rest)"

text \<open>
  The tree without the directories named \<open>FolderToIgnore\<close> (and all below them), and
  the tree without its symbolic links.
\<close>

fun withoutIgnored :: "Listing \<Rightarrow> Listing" and withoutIgnoredEntries :: "DirEntry list \<Rightarrow> DirEntry list" where
  "withoutIgnored ReadDirFails = ReadDirFails"
| "withoutIgnored (Entries items) = Entries (withoutIgnoredEntries items)"
| "withoutIgnoredEntries [] = []"
| "withoutIgnoredEntries (IsDir name listing # rest) =
     (if name = FolderToIgnore then withoutIgnoredEntries rest
      else IsDir name (withoutIgnored listing) # withoutIgnoredEntries rest)"
| "withoutIgnoredEntries (NotDir name info # rest) = NotDir name info # withoutIgnoredEntries rest"

definition isSymlink :: "FileInfo option \<Rightarrow> bool" where
  "isSymlink info = (case info of None \<Rightarrow> False | Some i \<Rightarrow> Mode i AND ModeSymlink = ModeSymlink)"

fun withoutSymlinks :: "Listing \<Rightarrow> Listing" and withoutSymlinkEntries :: "DirEntry list \<Rightarrow> DirEntry list" where
  "withoutSymlinks ReadDirFails = ReadDirFails"
| "withoutSymlinks (Entries items) = Entries (withoutSymlinkEntries items)"
| "withoutSymlinkEntries [] = []"
| "withoutSymlinkEntries (IsDir name listing # rest) =
     IsDir name (withoutSymlinks listing) # withoutSymlinkEntries rest"
| "withoutSymlinkEntries (NotDir name info # rest) =
     (if isSymlink info then withoutSymlinkEntries rest
      else NotDir name info # withoutSymlinkEntries rest)"

text \<open>
  Every entry of the tree that is not a directory and has a file info, under the path
  made of the names from the root (the elements \<open>rel\<close>) to the entry.
\<close>

fun filesOf :: "string list \<Rightarrow> Listing \<Rightarrow> (string \<times> FileInfo) set"
  and filesOfEntries :: "string list \<Rightarrow> DirEntry list \<Rightarrow> (string \<times> FileInfo) set" where
  "filesOf rel ReadDirFails = {}"
| "filesOf rel (Entries items) = filesOfEntries rel items"
| "filesOfEntries rel [] = {}"
| "filesOfEntries rel (IsDir name listing # rest) =
     filesOf (rel @ [name]) listing \<union> filesOfEntries rel rest"
| "filesOfEntries rel (NotDir name info # rest) =
     (case info of None \<Rightarrow> {} | Some i \<Rightarrow> {(joinElements (rel @ [name]), i)})
     \<union> filesOfEntries rel rest"

text \<open>
  The shape of a cleaned path: the elements that \<^verbatim>\<open>filepath.Clean\<close> leaves are names,
  after a run of \<^verbatim>\<open>..\<close> elements that only a path not beginning with a separator can
  have. \<open>cleaned\<close> are the elements of the cleaned path, \<open>render\<close> writes them out.
\<close>

fun dotsThenNames :: "string list \<Rightarrow> bool" where
  "dotsThenNames [] = True"
| "dotsThenNames (x # xs) =
     (if x = ''..'' then dotsThenNames xs else validName x \<and> (\<forall>y \<in> set xs. validName y))"

definition cleanList :: "bool \<Rightarrow> string list \<Rightarrow> bool" where
  "cleanList r xs = (if r then \<forall>x \<in> set xs. validName x else dotsThenNames xs)"

definition rooted :: "string \<Rightarrow> bool" where
  "rooted p \<longleftrightarrow> p \<noteq> [] \<and> hd p = CHR ''/''"

definition cleaned :: "string \<Rightarrow> string list" where
  "cleaned p = cleanElements (rooted p) [] (elements [] p)"

definition render :: "bool \<Rightarrow> string list \<Rightarrow> string" where
  "render r xs = (if r then ''/'' @ joinElements xs else if xs = [] then ''.'' else joinElements xs)"

text \<open>
  The invariant of the walk: \<open>path\<close> is the starting path itself, or the cleaned
  starting path followed by the names \<open>rel\<close>. \<open>noIgnored\<close> and \<open>backed\<close> are the
  invariants of the two maps: no recorded path leads through an ignored directory, and
  every recorded file is an entry of the tree that is no symbolic link.
\<close>

definition under :: "string \<Rightarrow> string \<Rightarrow> string list \<Rightarrow> bool" where
  "under start path rel \<longleftrightarrow>
     (\<forall>n \<in> set rel. validName n) \<and>
     (if rel = [] then path = start else path = render (rooted start) (cleaned start @ rel))"

definition noIgnored :: "Folder \<Rightarrow> File \<Rightarrow> bool" where
  "noIgnored folders files \<longleftrightarrow>
     (\<forall>k \<in> keys folders. FolderToIgnore \<notin> set (elements [] k)) \<and>
     (\<forall>k \<in> keys files. FolderToIgnore \<notin> set (butlast (elements [] k)))"

definition backed :: "(string \<times> FileInfo) set \<Rightarrow> File \<Rightarrow> bool" where
  "backed X files \<longleftrightarrow>
     (\<forall>(k, sz) \<in> set files. \<exists>i. (k, i) \<in> X \<and> Mode i AND ModeSymlink \<noteq> ModeSymlink \<and> Size i = sz)"

section \<open>Properties of the folder diff\<close>

lemma keys_Nil: "keys [] = {}"
  by (simp add: keys_def)

lemma keys_Cons: "keys ((k, v) # m) = insert k (keys m)"
  by (simp add: keys_def)

lemma keys_update: "keys (AList.update k v m) = insert k (keys m)"
  by (simp add: keys_def dom_update)

lemma map_of_None_keys: "map_of m k = None \<longleftrightarrow> k \<notin> keys m"
  by (simp add: keys_def map_of_eq_None_iff)

lemma keys_MissingFolders_loop:
  "keys (MissingFolders_loop dst src res) = keys res \<union> (keys src - keys dst)"
proof (induction dst src res rule: MissingFolders_loop.induct)
  case (1 dst res)
  show ?case by (simp add: keys_Nil)
next
  case (2 dst folder v rest res)
  then show ?case
    by (auto simp: keys_update map_of_None_keys keys_Cons)
qed

lemma keys_FoldersToClean_loop:
  "keys (FoldersToClean_loop src dst res) = keys res \<union> (keys dst - keys src)"
proof (induction src dst res rule: FoldersToClean_loop.induct)
  case (1 src res)
  show ?case by (simp add: keys_Nil)
next
  case (2 src folder v rest res)
  then show ?case
    by (auto simp: keys_update map_of_None_keys keys_Cons)
qed

lemma keys_MissingFolders: "keys (MissingFolders dst src) = keys src - keys dst"
  by (simp add: MissingFolders_def keys_MissingFolders_loop keys_Nil)

lemma keys_FoldersToClean: "keys (FoldersToClean dst src) = keys dst - keys src"
  by (simp add: FoldersToClean_def keys_FoldersToClean_loop keys_Nil)

text \<open>
  Claim C6. For all folder sets \<open>A\<close> and \<open>B\<close>, the key sets of \<open>MissingFolders A B\<close> and
  \<open>FoldersToClean A B\<close> are disjoint, the keys of \<open>MissingFolders A B\<close> are keys of
  \<open>B\<close> (the source argument) and the keys of \<open>FoldersToClean A B\<close> are keys of \<open>A\<close>
  (the destination argument).
\<close>

theorem folder_diffs_disjoint_subsets:
  "keys (MissingFolders A B) \<inter> keys (FoldersToClean A B) = {}
   \<and> keys (MissingFolders A B) \<subseteq> keys B
   \<and> keys (FoldersToClean A B) \<subseteq> keys A"
  by (auto simp: keys_MissingFolders keys_FoldersToClean)

section \<open>Properties of the file diff\<close>

lemma update_fresh: "k \<notin> keys m \<Longrightarrow> AList.update k v m = m @ [(k, v)]"
  by (induction m) (auto simp: keys_def)

lemma map_of_distinct_iff:
  "distinct (map fst m) \<Longrightarrow> map_of m k = Some v \<longleftrightarrow> (k, v) \<in> set m"
  by simp

lemma differs_case:
  "(case map_of dst file of None \<Rightarrow> True | Some sz' \<Rightarrow> sz' \<noteq> sz) \<longleftrightarrow> differs dst (file, sz)"
  by (simp add: differs_def split: option.splits)

lemma MissingFiles_loop_filter:
  "distinct (map fst src) \<Longrightarrow> keys src \<inter> keys res = {} \<Longrightarrow>
   MissingFiles_loop dst src (res, tot) =
     (res @ filter (differs dst) src, tot + sum_list (map snd (filter (differs dst) src)))"
proof (induction src arbitrary: res tot)
  case Nil
  show ?case by simp
next
  case (Cons e rest)
  obtain fl sz where e: "e = (fl, sz)" by (cases e)
  from Cons.prems have d: "distinct (map fst rest)" and nf: "fl \<notin> keys rest"
    and nr: "fl \<notin> keys res" and disj: "keys rest \<inter> keys res = {}"
    by (auto simp: e keys_def)
  show ?case
  proof (cases "differs dst (fl, sz)")
    case True
    have fresh: "keys rest \<inter> keys (res @ [(fl, sz)]) = {}"
      using disj nf by (auto simp: keys_def)
    have "MissingFiles_loop dst (e # rest) (res, tot) =
          MissingFiles_loop dst rest (res @ [(fl, sz)], tot + sz)"
      using True by (simp add: e differs_case update_fresh [OF nr])
    also have "\<dots> = ((res @ [(fl, sz)]) @ filter (differs dst) rest,
                     (tot + sz) + sum_list (map snd (filter (differs dst) rest)))"
      by (rule Cons.IH [OF d fresh])
    finally show ?thesis using True by (simp add: e add.assoc)
  next
    case False
    have "MissingFiles_loop dst (e # rest) (res, tot) = MissingFiles_loop dst rest (res, tot)"
      using False by (simp add: e differs_case)
    also have "\<dots> = (res @ filter (differs dst) rest,
                     tot + sum_list (map snd (filter (differs dst) rest)))"
      by (rule Cons.IH [OF d disj])
    finally show ?thesis using False by (simp add: e)
  qed
qed

lemma MissingFiles_filter:
  "distinct (map fst src) \<Longrightarrow>
   MissingFiles dst src = (filter (differs dst) src, sum_list (map snd (filter (differs dst) src)))"
  by (simp add: MissingFiles_def MissingFiles_loop_filter keys_Nil)

lemma signed_take_bit_sint64: "signed_take_bit 63 (sint (w :: int64)) = sint w"
  using sint_ge [of w] sint_lt [of w] by (simp add: signed_take_bit_int_eq_self)

lemma sint_sum_list:
  "sint (sum_list ws :: int64) = signed_take_bit 63 (sum_list (map sint ws))"
proof (induction ws)
  case Nil
  show ?case by simp
next
  case (Cons w ws)
  have "sint (w + sum_list ws) = signed_take_bit 63 (sint w + sint (sum_list ws))"
    by (simp add: sint_word_ariths)
  also have "\<dots> = signed_take_bit 63
      (signed_take_bit 63 (sint w) + signed_take_bit 63 (sum_list (map sint ws)))"
    by (simp only: Cons.IH signed_take_bit_sint64)
  also have "\<dots> = signed_take_bit 63 (sint w + sum_list (map sint ws))"
    by (rule signed_take_bit_add)
  finally show ?case by simp
qed

lemma sint_sum_list_exact:
  "- (2 ^ 63) \<le> sum_list (map sint ws) \<Longrightarrow> sum_list (map sint ws) < 2 ^ 63 \<Longrightarrow>
   sint (sum_list ws :: int64) = sum_list (map sint ws)"
  by (simp add: sint_sum_list signed_take_bit_int_eq_self)

lemma differs_iff:
  "differs dst (k, sz) \<longleftrightarrow>
   map_of dst k = None \<or> (\<exists>sz'. map_of dst k = Some sz' \<and> sz' \<noteq> sz)"
  by (cases "map_of dst k") (simp_all add: differs_def)

text \<open>
  Claim C4. For all file indexes \<open>dst\<close> and \<open>src\<close> (Go maps, so the keys of \<open>src\<close> are
  distinct), the first result of \<open>MissingFiles dst src\<close> is again a map with distinct keys
  and holds exactly the entries \<open>(k, sz)\<close> of \<open>src\<close> for which \<open>k\<close> is absent from \<open>dst\<close>
  or \<open>dst\<close> records another size; so a file with the same size on both sides is not in
  the result, and any difference of the sizes puts it there. The second result,
  \<open>totalSize\<close>, is the sum of the sizes of the returned entries. The sum is an \<^verbatim>\<open>int64\<close>
  sum; whenever the sum of the sizes as integers lies in the range of \<^verbatim>\<open>int64\<close>, the
  value of \<open>totalSize\<close> is that integer.
\<close>

theorem MissingFiles_exact:
  assumes "distinct (map fst src)"
  shows "distinct (map fst (fst (MissingFiles dst src)))
     \<and> (\<forall>k sz. map_of (fst (MissingFiles dst src)) k = Some sz \<longleftrightarrow>
           (map_of src k = Some sz \<and>
            (map_of dst k = None \<or> (\<exists>sz'. map_of dst k = Some sz' \<and> sz' \<noteq> sz))))
     \<and> snd (MissingFiles dst src) = sum_list (map snd (fst (MissingFiles dst src)))
     \<and> (- (2 ^ 63) \<le> sum_list (map (sint \<circ> snd) (fst (MissingFiles dst src)))
          \<and> sum_list (map (sint \<circ> snd) (fst (MissingFiles dst src))) < 2 ^ 63 \<longrightarrow>
        sint (snd (MissingFiles dst src))
          = sum_list (map (sint \<circ> snd) (fst (MissingFiles dst src))))"
proof -
  let ?res = "filter (differs dst) src"
  have eq: "MissingFiles dst src = (?res, sum_list (map snd ?res))"
    using assms by (rule MissingFiles_filter)
  have d: "distinct (map fst ?res)"
    using assms by (rule distinct_map_filter)
  have entries: "map_of ?res k = Some sz \<longleftrightarrow>
      (map_of src k = Some sz \<and>
       (map_of dst k = None \<or> (\<exists>sz'. map_of dst k = Some sz' \<and> sz' \<noteq> sz)))" for k sz
  proof -
    have "map_of ?res k = Some sz \<longleftrightarrow> (k, sz) \<in> set ?res"
      using d by (rule map_of_distinct_iff)
    also have "\<dots> \<longleftrightarrow> (k, sz) \<in> set src \<and> differs dst (k, sz)"
      by simp
    also have "\<dots> \<longleftrightarrow> map_of src k = Some sz \<and> differs dst (k, sz)"
      using assms by (simp only: map_of_distinct_iff)
    finally show ?thesis by (simp only: differs_iff)
  qed
  have exact: "sint (sum_list (map snd ?res))= sum_list (map (sint \<circ> snd) ?res)"
    if "- (2 ^ 63) \<le> sum_list (map (sint \<circ> snd) ?res)"
      and "sum_list (map (sint \<circ> snd) ?res) < 2 ^ 63"
    using sint_sum_list_exact [of "map snd ?res"] that by (simp add: comp_def)
  show ?thesis
    unfolding eq fst_conv snd_conv using d entries exact by blast
qed

theorem MissingFiles_exact_witness:
  "distinct (map fst [(''_same_1'', 1 :: int64), (''same_1/same_2/_not_in_dst'', 1),
                      (''same_1/_different'', 2)])
   \<and> map_of (fst (MissingFiles
         [(''_same_1'', 1), (''same_1/same_2/_not_in_src'', 1), (''same_1/_different'', 1)]
         [(''_same_1'', 1), (''same_1/same_2/_not_in_dst'', 1), (''same_1/_different'', 2)]))
       ''same_1/_different'' = Some 2
   \<and> map_of (fst (MissingFiles
         [(''_same_1'', 1), (''same_1/same_2/_not_in_src'', 1), (''same_1/_different'', 1)]
         [(''_same_1'', 1), (''same_1/same_2/_not_in_dst'', 1), (''same_1/_different'', 2)]))
       ''_same_1'' = None
   \<and> sint (snd (MissingFiles
         [(''_same_1'', 1), (''same_1/same_2/_not_in_src'', 1), (''same_1/_different'', 1)]
         [(''_same_1'', 1), (''same_1/same_2/_not_in_dst'', 1), (''same_1/_different'', 2)])) = 3"
proof -
  have h: "distinct (map fst [(''_same_1'', 1 :: int64), (''same_1/same_2/_not_in_dst'', 1),
                      (''same_1/_different'', 2)])"
    by simp
  show ?thesis
    using h MissingFiles_exact [OF h,
      of "[(''_same_1'', 1), (''same_1/same_2/_not_in_src'', 1), (''same_1/_different'', 1)]"]
    by (simp add: MissingFiles_def)
qed

lemma FilesToClean_loop_filter:
  "distinct (map fst dst) \<Longrightarrow> keys dst \<inter> keys res = {} \<Longrightarrow>
   FilesToClean_loop src dst (res, tot) =
     (res @ filter (\<lambda>e. map_of src (fst e) = None) dst,
      tot + sum_list (map snd (filter (\<lambda>e. map_of src (fst e) = None) dst)))"
proof (induction dst arbitrary: res tot)
  case Nil
  show ?case by simp
next
  case (Cons e rest)
  obtain fl sz where e: "e = (fl, sz)" by (cases e)
  from Cons.prems have d: "distinct (map fst rest)" and nr: "fl \<notin> keys res"
    and disj: "keys rest \<inter> keys res = {}"
    and fresh: "keys rest \<inter> keys (res @ [(fl, sz)]) = {}"
    by (auto simp: e keys_def)
  show ?case
  proof (cases "map_of src fl")
    case None
    have "FilesToClean_loop src (e # rest) (res, tot) =
          FilesToClean_loop src rest (res @ [(fl, sz)], tot + sz)"
      by (simp add: e None update_fresh [OF nr])
    also note Cons.IH [OF d fresh]
    finally show ?thesis by (simp add: e None add.assoc)
  next
    case (Some sz')
    have "FilesToClean_loop src (e # rest) (res, tot) = FilesToClean_loop src rest (res, tot)"
      by (simp add: e Some)
    also note Cons.IH [OF d disj]
    finally show ?thesis by (simp add: e Some)
  qed
qed

lemma FilesToClean_filter:
  "distinct (map fst dst) \<Longrightarrow>
   FilesToClean dst src =
     (filter (\<lambda>e. map_of src (fst e) = None) dst,
      sum_list (map snd (filter (\<lambda>e. map_of src (fst e) = None) dst)))"
  by (simp add: FilesToClean_def FilesToClean_loop_filter keys_Nil)

text \<open>
  Claim C5. For all file indexes \<open>dst\<close> and \<open>src\<close> (the keys of \<open>dst\<close> distinct, as in
  every Go map), the first result of \<open>FilesToClean dst src\<close> is a map with distinct keys
  that holds exactly the entries \<open>(k, sz)\<close> of \<open>dst\<close> whose key is absent from \<open>src\<close>,
  with the size \<open>dst\<close> records. The second result is the sum of the sizes of the
  returned entries: an \<^verbatim>\<open>int64\<close> sum, which is the sum of the sizes as integers
  whenever that lies in the range of \<^verbatim>\<open>int64\<close>.
\<close>

theorem FilesToClean_exact:
  assumes "distinct (map fst dst)"
  shows "distinct (map fst (fst (FilesToClean dst src)))
     \<and> (\<forall>k sz. map_of (fst (FilesToClean dst src)) k = Some sz \<longleftrightarrow>
           (map_of dst k = Some sz \<and> map_of src k = None))
     \<and> snd (FilesToClean dst src) = sum_list (map snd (fst (FilesToClean dst src)))
     \<and> (- (2 ^ 63) \<le> sum_list (map (sint \<circ> snd) (fst (FilesToClean dst src)))
          \<and> sum_list (map (sint \<circ> snd) (fst (FilesToClean dst src))) < 2 ^ 63 \<longrightarrow>
        sint (snd (FilesToClean dst src))
          = sum_list (map (sint \<circ> snd) (fst (FilesToClean dst src))))"
proof -
  let ?res = "filter (\<lambda>e. map_of src (fst e) = None) dst"
  have eq: "FilesToClean dst src = (?res, sum_list (map snd ?res))"
    using assms by (rule FilesToClean_filter)
  have d: "distinct (map fst ?res)"
    using assms by (rule distinct_map_filter)
  have entries: "map_of ?res k = Some sz \<longleftrightarrow> (map_of dst k = Some sz \<and> map_of src k = None)"
    for k sz
  proof -
    have "map_of ?res k = Some sz \<longleftrightarrow> (k, sz) \<in> set ?res"
      using d by (rule map_of_distinct_iff)
    also have "\<dots> \<longleftrightarrow> (k, sz) \<in> set dst \<and> map_of src k = None"
      by simp
    also have "\<dots> \<longleftrightarrow> map_of dst k = Some sz \<and> map_of src k = None"
      using assms by (simp only: map_of_distinct_iff)
    finally show ?thesis .
  qed
  have exact: "sint (sum_list (map snd ?res)) = sum_list (map (sint \<circ> snd) ?res)"
    if "- (2 ^ 63) \<le> sum_list (map (sint \<circ> snd) ?res)"
      and "sum_list (map (sint \<circ> snd) ?res) < 2 ^ 63"
    using sint_sum_list_exact [of "map snd ?res"] that by (simp add: comp_def)
  show ?thesis
    unfolding eq fst_conv snd_conv using d entries exact by blast
qed

theorem FilesToClean_exact_witness:
  "distinct (map fst [(''x'', 100 :: int64), (''y'', 250), (''z'', 7)])
   \<and> fst (FilesToClean [(''x'', 100), (''y'', 250), (''z'', 7)] [(''z'', 9)])
       = [(''x'', 100), (''y'', 250)]
   \<and> snd (FilesToClean [(''x'', 100), (''y'', 250), (''z'', 7)] [(''z'', 9)]) = 350
   \<and> sint (snd (FilesToClean [(''x'', 100), (''y'', 250), (''z'', 7)] [(''z'', 9)])) = 350"
proof -
  have h: "distinct (map fst [(''x'', 100 :: int64), (''y'', 250), (''z'', 7)])"
    by simp
  show ?thesis
    using h FilesToClean_exact [OF h, of "[(''z'', 9)]"]
    by (simp add: FilesToClean_def)
qed

section \<open>A second copy run finds nothing to do\<close>







section \<open>The loops of the path orderer as functions of the sorted slice\<close>


lemma HasPrefix_iff: "HasPrefix s pre \<longleftrightarrow> (\<exists>t. s = pre @ t)"
proof
  assume "HasPrefix s pre"
  then have "take (length pre) s = pre" by (simp add: HasPrefix_def)
  then have "s = pre @ drop (length pre) s" by (metis append_take_drop_id)
  then show "\<exists>t. s = pre @ t" ..
next
  assume "\<exists>t. s = pre @ t"
  then show "HasPrefix s pre" by (auto simp: HasPrefix_def)
qed

lemma HasPrefix_refl: "HasPrefix s s"
  by (simp add: HasPrefix_def)

lemma HasPrefix_trans: "HasPrefix s t \<Longrightarrow> HasPrefix t u \<Longrightarrow> HasPrefix s u"
  by (auto simp: HasPrefix_iff)

lemma index_in_range: "0 \<le> i \<Longrightarrow> i < int (length xs) \<Longrightarrow> index xs i = Inr (xs ! nat i)"
  by (simp add: index_def)

lemma longestLoop_kept:
  "0 \<le> i \<Longrightarrow> n = int (length srt) \<Longrightarrow>
   longestLoop srt n i res = Inr (res @ keptAscending (drop (nat i) srt))"
proof (induction srt n i res rule: longestLoop.induct)
  case (1 srt n i res)
  show ?case
  proof (cases "i < n - 1")
    case True
    with "1.prems" have r0: "nat i < length srt" and r1: "Suc (nat i) < length srt"
      by auto
    have i0: "index srt i = Inr (srt ! nat i)"
      using "1.prems" True by (simp add: index_in_range)
    have i1: "index srt (i + 1) = Inr (srt ! Suc (nat i))"
      using "1.prems" True by (simp add: index_def nat_add_distrib)
    have d: "drop (nat i) srt = srt ! nat i # srt ! Suc (nat i) # drop (Suc (Suc (nat i))) srt"
      using r0 r1 by (simp add: Cons_nth_drop_Suc)
    have d1: "drop (nat (i + 1)) srt = srt ! Suc (nat i) # drop (Suc (Suc (nat i))) srt"
      using r1 "1.prems" by (simp add: Cons_nth_drop_Suc nat_add_distrib)
    let ?res = "if Dir (srt ! Suc (nat i)) = Dir (srt ! nat i)
                   \<or> \<not> HasPrefix (srt ! Suc (nat i)) (srt ! nat i)
                then res @ [srt ! nat i] else res"
    have "longestLoop srt n i res = longestLoop srt n (i + 1) ?res"
      using True by (subst longestLoop.simps) (simp add: i0 i1)
    also have "\<dots> = Inr (?res @ keptAscending (drop (nat (i + 1)) srt))"
      using "1.prems" by (intro "1.IH" [OF True i1 i0]) auto
    also have "\<dots> = Inr (res @ keptAscending (drop (nat i) srt))"
      by (simp add: d d1)
    finally show ?thesis .
  next
    case False
    with "1.prems" have "length (drop (nat i) srt) \<le> 1" by auto
    then have "keptAscending (drop (nat i) srt) = []"
      by (cases "drop (nat i) srt" rule: keptAscending.cases) auto
    with False show ?thesis by (subst longestLoop.simps) simp
  qed
qed

lemma shortestLoop_kept:
  "0 \<le> i \<Longrightarrow> i < int (length srt) \<Longrightarrow>
   shortestLoop srt i res = Inr (res @ keptDescending (rev (take (Suc (nat i)) srt)))"
proof (induction srt i res rule: shortestLoop.induct)
  case (1 srt i res)
  show ?case
  proof (cases "i > 0")
    case True
    obtain j where j: "nat i = Suc j" using True by (cases "nat i") auto
    then have ij: "nat (i - 1) = j" by simp
    with "1.prems" j have r0: "Suc j < length srt" and r1: "j < length srt" by auto
    have i0: "index srt i = Inr (srt ! Suc j)"
      using "1.prems" j by (simp add: index_def)
    have i1: "index srt (i - 1) = Inr (srt ! j)"
      using "1.prems" True ij by (simp add: index_def)
    have t: "rev (take (Suc (nat i)) srt) = srt ! Suc j # srt ! j # rev (take j srt)"
      using r0 r1 by (simp add: j take_Suc_conv_app_nth)
    have t1: "rev (take (Suc (nat (i - 1))) srt) = srt ! j # rev (take j srt)"
      using r1 by (simp add: ij take_Suc_conv_app_nth)
    let ?res = "if Dir (srt ! Suc j) = Dir (srt ! j) \<or> \<not> HasPrefix (srt ! Suc j) (srt ! j)
                then res @ [srt ! Suc j] else res"
    have "shortestLoop srt i res = shortestLoop srt (i - 1) ?res"
      using True by (subst shortestLoop.simps) (simp add: i0 i1)
    also have "\<dots> = Inr (?res @ keptDescending (rev (take (Suc (nat (i - 1))) srt)))"
      using "1.prems" True by (intro "1.IH" [OF True i0 i1]) auto
    also have "\<dots> = Inr (res @ keptDescending (rev (take (Suc (nat i)) srt)))"
      by (simp add: t t1)
    finally show ?thesis .
  next
    case False
    with "1.prems" have "i = 0" by simp
    then have "keptDescending (rev (take (Suc (nat i)) srt)) = []"
      by (cases srt) auto
    with False show ?thesis by (subst shortestLoop.simps) simp
  qed
qed

lemma keepFoldersWithLongestPrefix_kept:
  "folders \<noteq> [] \<Longrightarrow>
   keepFoldersWithLongestPrefix folders =
     Inr (keptAscending (sortFoldersOrFiles folders) @ [last (sortFoldersOrFiles folders)])"
proof -
  assume ne: "folders \<noteq> []"
  let ?srt = "sortFoldersOrFiles folders"
  have len: "length ?srt = length folders" by (simp add: sortFoldersOrFiles_def)
  with ne have ne': "?srt \<noteq> []" by auto
  have loop: "longestLoop ?srt (int (length folders)) 0 [] = Inr (keptAscending ?srt)"
    using longestLoop_kept [of 0 "int (length folders)" ?srt "[]"] len by simp
  have "nat (int (length folders) - 1) = length ?srt - 1" using len by simp
  then have lst: "index ?srt (int (length folders) - 1) = Inr (last ?srt)"
    using ne ne' len by (simp add: index_def last_conv_nth)
  show ?thesis
    by (simp add: keepFoldersWithLongestPrefix_def Let_def loop lst)
qed

lemma keepFoldersWithShortestPrefix_kept:
  "folders \<noteq> [] \<Longrightarrow>
   keepFoldersWithShortestPrefix folders =
     Inr (keptDescending (rev (sortFoldersOrFiles folders)) @ [hd (sortFoldersOrFiles folders)])"
proof -
  assume ne: "folders \<noteq> []"
  let ?srt = "sortFoldersOrFiles folders"
  have len: "length ?srt = length folders" by (simp add: sortFoldersOrFiles_def)
  with ne have ne': "?srt \<noteq> []" by auto
  have suc: "Suc (nat (int (length folders) - 1)) = length ?srt"
    using len ne by (cases folders) auto
  have "shortestLoop ?srt (int (length folders) - 1) [] =
        Inr ([] @ keptDescending (rev (take (Suc (nat (int (length folders) - 1))) ?srt)))"
    using len ne by (intro shortestLoop_kept) (cases folders; simp)+
  then have loop: "shortestLoop ?srt (int (length folders) - 1) [] = Inr (keptDescending (rev ?srt))"
    by (simp add: suc)
  have fst: "index ?srt 0 = Inr (hd ?srt)"
    using ne' by (simp add: index_def hd_conv_nth)
  show ?thesis
    by (simp add: keepFoldersWithShortestPrefix_def Let_def loop fst)
qed

section \<open>Properties of the path orderer\<close>

lemma set_sortFoldersOrFiles: "set (sortFoldersOrFiles folders) = keys folders"
  by (simp add: sortFoldersOrFiles_def keys_def)

lemma sortFoldersOrFiles_Nil_iff: "sortFoldersOrFiles folders = [] \<longleftrightarrow> folders = []"
  by (metis length_0_conv length_map length_sort sortFoldersOrFiles_def)

lemma keptAscending_subset: "set (keptAscending xs) \<subseteq> set xs"
  by (induction xs rule: keptAscending.induct) auto

lemma keptDescending_subset: "set (keptDescending xs) \<subseteq> set xs"
  by (induction xs rule: keptDescending.induct) auto

lemma keptAscending_covers:
  "xs \<noteq> [] \<Longrightarrow> p \<in> set xs \<Longrightarrow> \<exists>q \<in> set (keptAscending xs @ [last xs]). HasPrefix q p"
proof (induction xs arbitrary: p rule: keptAscending.induct)
  case (1 cur nxt rest)
  let ?out = "keptAscending (nxt # rest) @ [last (nxt # rest)]"
  have sub: "set ?out \<subseteq> set (keptAscending (cur # nxt # rest) @ [last (cur # nxt # rest)])"
    by auto
  have tail: "\<exists>q \<in> set ?out. HasPrefix q r" if "r \<in> set (nxt # rest)" for r
    using "1.IH" [of r] that by simp
  show ?case
  proof (cases "p = cur")
    case False
    with "1.prems" have "p \<in> set (nxt # rest)" by simp
    with tail sub show ?thesis by blast
  next
    case True
    show ?thesis
    proof (cases "Dir nxt = Dir cur \<or> \<not> HasPrefix nxt cur")
      case True
      with \<open>p = cur\<close> show ?thesis by (auto simp: HasPrefix_refl)
    next
      case False
      then have up: "HasPrefix nxt cur" by simp
      from tail [of nxt] obtain q where q: "q \<in> set ?out" "HasPrefix q nxt" by auto
      from q(2) up have "HasPrefix q p" unfolding \<open>p = cur\<close> by (rule HasPrefix_trans)
      with q(1) sub show ?thesis by blast
    qed
  qed
qed (simp_all add: HasPrefix_refl)

lemma keptDescending_covers:
  "xs \<noteq> [] \<Longrightarrow> p \<in> set xs \<Longrightarrow> \<exists>q \<in> set (keptDescending xs @ [last xs]). HasPrefix p q"
proof (induction xs arbitrary: p rule: keptDescending.induct)
  case (1 cur prv rest)
  let ?out = "keptDescending (prv # rest) @ [last (prv # rest)]"
  have sub: "set ?out \<subseteq> set (keptDescending (cur # prv # rest) @ [last (cur # prv # rest)])"
    by auto
  have tail: "\<exists>q \<in> set ?out. HasPrefix r q" if "r \<in> set (prv # rest)" for r
    using "1.IH" [of r] that by simp
  show ?case
  proof (cases "p = cur")
    case False
    with "1.prems" have "p \<in> set (prv # rest)" by simp
    with tail sub show ?thesis by blast
  next
    case True
    show ?thesis
    proof (cases "Dir cur = Dir prv \<or> \<not> HasPrefix cur prv")
      case True
      with \<open>p = cur\<close> show ?thesis by (auto simp: HasPrefix_refl)
    next
      case False
      then have down: "HasPrefix cur prv" by simp
      from tail [of prv] obtain q where q: "q \<in> set ?out" "HasPrefix prv q" by auto
      from down q(2) have "HasPrefix p q" unfolding \<open>p = cur\<close> by (rule HasPrefix_trans)
      with q(1) sub show ?thesis by blast
    qed
  qed
qed (simp_all add: HasPrefix_refl)

text \<open>
  Claim C10. For every non-empty folder set \<open>S\<close>, \<open>keepFoldersWithLongestPrefix\<close> and
  \<open>keepFoldersWithShortestPrefix\<close> return slices whose elements are paths of \<open>S\<close>, and
  every path \<open>p\<close> of \<open>S\<close> is covered: \<open>p\<close> is in the first slice or is a string prefix
  of one of its elements, and \<open>p\<close> is in the second slice or one of its elements is a
  string prefix of \<open>p\<close>.
\<close>

theorem collapse_covers:
  assumes "folders \<noteq> []"
  shows "\<exists>up down.
           keepFoldersWithLongestPrefix folders = Inr up
         \<and> keepFoldersWithShortestPrefix folders = Inr down
         \<and> set up \<subseteq> keys folders
         \<and> set down \<subseteq> keys folders
         \<and> (\<forall>p \<in> keys folders. p \<in> set up \<or> (\<exists>q \<in> set up. HasPrefix q p))
         \<and> (\<forall>p \<in> keys folders. p \<in> set down \<or> (\<exists>q \<in> set down. HasPrefix p q))"
proof -
  let ?srt = "sortFoldersOrFiles folders"
  let ?up = "keptAscending ?srt @ [last ?srt]"
  let ?down = "keptDescending (rev ?srt) @ [hd ?srt]"
  have ne: "?srt \<noteq> []"
    using assms by (simp add: sortFoldersOrFiles_Nil_iff)
  have s: "set ?srt = keys folders"
    by (rule set_sortFoldersOrFiles)
  have hl: "hd ?srt = last (rev ?srt)"
    using ne by (simp add: last_rev)
  have "set ?up \<subseteq> keys folders"
    using keptAscending_subset [of ?srt] ne s by auto
  moreover have "set ?down \<subseteq> keys folders"
    using keptDescending_subset [of "rev ?srt"] ne s by auto
  moreover have "\<exists>q \<in> set ?up. HasPrefix q p" if "p \<in> keys folders" for p
    using keptAscending_covers [OF ne, of p] that s by simp
  moreover have "\<exists>q \<in> set ?down. HasPrefix p q" if "p \<in> keys folders" for p
    using keptDescending_covers [of "rev ?srt" p] that s ne unfolding hl by simp
  ultimately show ?thesis
    unfolding keepFoldersWithLongestPrefix_kept [OF assms]
      keepFoldersWithShortestPrefix_kept [OF assms]
    by blast
qed

theorem collapse_covers_witness:
  "[(''a/b/c'', ()), (''a'', ()), (''a/b'', ()), (''q'', ()), (''g'', ()), (''a/b/cc'', ()),
    (''aa'', ())] \<noteq> []
   \<and> (\<exists>up down.
        keepFoldersWithLongestPrefix
          [(''a/b/c'', ()), (''a'', ()), (''a/b'', ()), (''q'', ()), (''g'', ()),
           (''a/b/cc'', ()), (''aa'', ())] = Inr up
      \<and> keepFoldersWithShortestPrefix
          [(''a/b/c'', ()), (''a'', ()), (''a/b'', ()), (''q'', ()), (''g'', ()),
           (''a/b/cc'', ()), (''aa'', ())] = Inr down
      \<and> (\<exists>q \<in> set up. HasPrefix q ''a/b'')
      \<and> (\<exists>q \<in> set down. HasPrefix ''a/b'' q))"
proof -
  let ?folders = "[(''a/b/c'', ()), (''a'', ()), (''a/b'', ()), (''q'', ()), (''g'', ()),
    (''a/b/cc'', ()), (''aa'', ())] :: Folder"
  have h: "?folders \<noteq> []" by simp
  have k: "''a/b'' \<in> keys ?folders" by (simp add: keys_def)
  from collapse_covers [OF h] obtain up down where
    r: "keepFoldersWithLongestPrefix ?folders = Inr up"
       "keepFoldersWithShortestPrefix ?folders = Inr down"
    and cu: "\<forall>p \<in> keys ?folders. p \<in> set up \<or> (\<exists>q \<in> set up. HasPrefix q p)"
    and cd: "\<forall>p \<in> keys ?folders. p \<in> set down \<or> (\<exists>q \<in> set down. HasPrefix p q)"
    by blast
  from cu k have u: "\<exists>q \<in> set up. HasPrefix q ''a/b''"
    using HasPrefix_refl by blast
  from cd k have d: "\<exists>q \<in> set down. HasPrefix ''a/b'' q"
    using HasPrefix_refl by blast
  from r u d have "\<exists>up down.
        keepFoldersWithLongestPrefix ?folders = Inr up
      \<and> keepFoldersWithShortestPrefix ?folders = Inr down
      \<and> (\<exists>q \<in> set up. HasPrefix q ''a/b'')
      \<and> (\<exists>q \<in> set down. HasPrefix ''a/b'' q)"
    by blast
  with h show ?thesis by (rule conjI)
qed

text \<open>
  Claim C3, as the code has it. On the empty folder set both functions panic: after
  the loop, which runs no round, \<^verbatim>\<open>sorted[len(folders)-1]\<close> reads index \<open>-1\<close> and
  \<^verbatim>\<open>sorted[0]\<close> reads an empty slice. The driver calls \<^verbatim>\<open>MakeFolders\<close> and
  \<^verbatim>\<open>CleanFolders\<close> only under \<^verbatim>\<open>if len(missingFolders) > 0\<close> and
  \<^verbatim>\<open>if len(foldersToClean) > 0\<close>.
\<close>

theorem keepFolders_empty_panics:
  "keepFoldersWithLongestPrefix [] = Inl IndexOutOfRange
   \<and> keepFoldersWithShortestPrefix [] = Inl IndexOutOfRange"
  by (simp add: keepFoldersWithLongestPrefix_def keepFoldersWithShortestPrefix_def
      sortFoldersOrFiles_def longestLoop.simps shortestLoop.simps index_def)

text \<open>
  Claim C3, amended. On every non-empty folder set \<open>keepFoldersWithLongestPrefix\<close>
  and \<open>keepFoldersWithShortestPrefix\<close> return a slice (they do not panic), and on a
  folder set of one path they return that path alone.
\<close>

theorem keepFolders_total_on_nonempty:
  "(folders \<noteq> [] \<longrightarrow>
      (\<exists>up. keepFoldersWithLongestPrefix folders = Inr up)
    \<and> (\<exists>down. keepFoldersWithShortestPrefix folders = Inr down))
   \<and> keepFoldersWithLongestPrefix [(p, v)] = Inr [p]
   \<and> keepFoldersWithShortestPrefix [(p, v)] = Inr [p]"
proof -
  have "keepFoldersWithLongestPrefix [(p, v)] = Inr [p]"
    by (simp add: keepFoldersWithLongestPrefix_kept sortFoldersOrFiles_def)
  moreover have "keepFoldersWithShortestPrefix [(p, v)] = Inr [p]"
    by (simp add: keepFoldersWithShortestPrefix_kept sortFoldersOrFiles_def)
  ultimately show ?thesis
    by (simp add: keepFoldersWithLongestPrefix_kept keepFoldersWithShortestPrefix_kept)
qed

theorem keepFolders_total_on_nonempty_witness:
  "[(''same_1/same_2/not_in_dst'', ())] \<noteq> ([] :: Folder)
   \<and> (\<exists>up. keepFoldersWithLongestPrefix [(''same_1/same_2/not_in_dst'', ())] = Inr up)
   \<and> (\<exists>down. keepFoldersWithShortestPrefix [(''same_1/same_2/not_in_dst'', ())] = Inr down)
   \<and> keepFoldersWithLongestPrefix [(''same_1/same_2/not_in_dst'', ())]
       = Inr [''same_1/same_2/not_in_dst'']
   \<and> keepFoldersWithShortestPrefix [(''same_1/same_2/not_in_dst'', ())]
       = Inr [''same_1/same_2/not_in_dst'']"
  using keepFolders_total_on_nonempty
    [of "[(''same_1/same_2/not_in_dst'', ())]" "''same_1/same_2/not_in_dst''" "()"]
  by simp

lemma sorted_keys_unique:
  assumes "distinct (map fst folders)" and "keys folders = set xs"
    and "sorted xs" and "distinct xs"
  shows "sortFoldersOrFiles folders = xs"
proof -
  have "sorted (sort (map fst folders))" by simp
  moreover have "distinct (sort (map fst folders))" using assms(1) by simp
  moreover have "set (sort (map fst folders)) = set xs"
    using assms(2) by (simp add: keys_def)
  ultimately have "sort (map fst folders) = xs"
    using assms(3,4) by (intro sorted_distinct_set_unique)
  then show ?thesis by (simp add: sortFoldersOrFiles_def)
qed

text \<open>
  Claim C2. For every folder set whose paths are exactly \<open>a\<close>, \<open>a/b\<close> and \<open>a/b/c\<close>, in
  whatever order the map yields them, \<open>keepFoldersWithLongestPrefix\<close> returns exactly
  \<open>[a/b/c]\<close> and \<open>keepFoldersWithShortestPrefix\<close> returns exactly \<open>[a]\<close>.
\<close>

theorem chain_collapses:
  assumes "distinct (map fst folders)"
    and "keys folders = {''a'', ''a/b'', ''a/b/c''}"
  shows "keepFoldersWithLongestPrefix folders = Inr [''a/b/c'']
       \<and> keepFoldersWithShortestPrefix folders = Inr [''a'']"
proof -
  have k: "keys folders = set [''a'', ''a/b'', ''a/b/c'']"
    unfolding assms(2) by simp
  have srt: "sortFoldersOrFiles folders = [''a'', ''a/b'', ''a/b/c'']"
    by (rule sorted_keys_unique [OF assms(1) k]) simp_all
  have ne: "folders \<noteq> []"
  proof
    assume "folders = []"
    then have "keys folders = {}" by (simp add: keys_Nil)
    with assms(2) show False by simp
  qed
  have d: "Dir ''a'' = ''.''" "Dir ''a/b'' = ''a''" "Dir ''a/b/c'' = ''a/b''"
    by (simp_all add: Dir_def Clean_def)
  have h: "HasPrefix ''a/b'' ''a''" "HasPrefix ''a/b/c'' ''a/b''"
    by (simp_all add: HasPrefix_def)
  have up: "keptAscending [''a'', ''a/b'', ''a/b/c''] = []"
    by (simp only: keptAscending.simps d h) simp
  have down: "keptDescending (rev [''a'', ''a/b'', ''a/b/c'']) = []"
    by (simp only: rev.simps append.simps keptDescending.simps d h) simp
  have "keepFoldersWithLongestPrefix folders = Inr [''a/b/c'']"
    unfolding keepFoldersWithLongestPrefix_kept [OF ne] srt up by simp
  moreover have "keepFoldersWithShortestPrefix folders = Inr [''a'']"
    unfolding keepFoldersWithShortestPrefix_kept [OF ne] srt down by simp
  ultimately show ?thesis by (rule conjI)
qed

theorem chain_collapses_witness:
  "distinct (map fst [(''a/b'', ()), (''a/b/c'', ()), (''a'', ())])
   \<and> keys [(''a/b'', ()), (''a/b/c'', ()), (''a'', ())] = {''a'', ''a/b'', ''a/b/c''}
   \<and> keepFoldersWithLongestPrefix [(''a/b'', ()), (''a/b/c'', ()), (''a'', ())]
       = Inr [''a/b/c'']
   \<and> keepFoldersWithShortestPrefix [(''a/b'', ()), (''a/b/c'', ()), (''a'', ())]
       = Inr [''a'']"
proof -
  have h1: "distinct (map fst [(''a/b'', ()), (''a/b/c'', ()), (''a'', ())])"
    by simp
  have h2: "keys [(''a/b'', ()), (''a/b/c'', ()), (''a'', ())] = {''a'', ''a/b'', ''a/b/c''}"
    by (auto simp: keys_def)
  have r: "keepFoldersWithLongestPrefix [(''a/b'', ()), (''a/b/c'', ()), (''a'', ())]
             = Inr [''a/b/c'']
         \<and> keepFoldersWithShortestPrefix [(''a/b'', ()), (''a/b/c'', ()), (''a'', ())]
             = Inr [''a'']"
    by (rule chain_collapses [OF h1 h2])
  show ?thesis
    by (intro conjI h1 h2 conjunct1 [OF r] conjunct2 [OF r])
qed

text \<open>
  Claim C1 at the folder set \<open>{ab, abc/d}\<close>, which \<open>MissingFolders\<close> returns when the
  source has the folders \<open>ab\<close>, \<open>abc\<close> and \<open>abc/d\<close> and the destination has \<open>abc\<close>
  alone. Neither path is an ancestor of the other: neither begins with the other
  followed by a separator. The sorted slice is \<open>[ab, abc/d]\<close>; the directories \<open>.\<close>
  and \<open>abc\<close> of the two paths differ and \<open>ab\<close> is a string prefix of \<open>abc/d\<close>, so
  the ascending walk drops \<open>ab\<close> and the descending walk drops \<open>abc/d\<close>.
\<close>

theorem collapse_drops_non_ancestor:
  "MissingFolders [(''abc'', ())] [(''ab'', ()), (''abc'', ()), (''abc/d'', ())]
     = [(''ab'', ()), (''abc/d'', ())]
   \<and> \<not> HasPrefix ''abc/d'' (''ab'' @ ''/'')
   \<and> \<not> HasPrefix ''ab'' (''abc/d'' @ ''/'')
   \<and> Dir ''ab'' = ''.''
   \<and> Dir ''abc/d'' = ''abc''
   \<and> HasPrefix ''abc/d'' ''ab''
   \<and> keepFoldersWithLongestPrefix [(''ab'', ()), (''abc/d'', ())] = Inr [''abc/d'']
   \<and> keepFoldersWithShortestPrefix [(''ab'', ()), (''abc/d'', ())] = Inr [''ab'']"
  by (simp add: MissingFolders_def keepFoldersWithLongestPrefix_def
      keepFoldersWithShortestPrefix_def sortFoldersOrFiles_def longestLoop.simps
      shortestLoop.simps index_def Dir_def Clean_def HasPrefix_def)

section \<open>Cleaned paths\<close>

lemma elements_append_sep:
  "elements cur (p @ CHR ''/'' # s) = elements cur p @ elements [] s"
  by (induction p arbitrary: cur) auto

lemma elements_no_sep: "CHR ''/'' \<notin> set n \<Longrightarrow> elements cur n = [cur @ n]"
  by (induction n arbitrary: cur) auto

lemma elements_sep_free:
  "CHR ''/'' \<notin> set cur \<Longrightarrow> \<forall>e \<in> set (elements cur s). CHR ''/'' \<notin> set e"
proof (induction s arbitrary: cur)
  case Nil
  then show ?case by simp
next
  case (Cons c s)
  show ?case
  proof (cases "c = CHR ''/''")
    case True
    with Cons.prems Cons.IH [of "[]"] show ?thesis by simp
  next
    case False
    with Cons.prems Cons.IH [of "cur @ [c]"] show ?thesis by simp
  qed
qed

lemma elements_joinElements:
  "xs \<noteq> [] \<Longrightarrow> \<forall>x \<in> set xs. CHR ''/'' \<notin> set x \<Longrightarrow> elements [] (joinElements xs) = xs"
proof (induction xs rule: joinElements.induct)
  case 1
  then show ?case by simp
next
  case (2 e)
  then show ?case by (simp add: elements_no_sep)
next
  case (3 e e' es)
  have "elements [] (joinElements (e # e' # es)) = elements [] e @ elements [] (joinElements (e' # es))"
    by (simp add: elements_append_sep)
  with 3 show ?case by (simp add: elements_no_sep)
qed

lemma validName_simps:
  "validName n \<Longrightarrow> n \<noteq> []" "validName n \<Longrightarrow> n \<noteq> ''.''" "validName n \<Longrightarrow> n \<noteq> ''..''"
  "validName n \<Longrightarrow> CHR ''/'' \<notin> set n"
  by (simp_all add: validName_def)

lemma cleanElements_snoc_valid:
  "validName n \<Longrightarrow> cleanElements r out (es @ [n]) = cleanElements r out es @ [n]"
  by (induction es arbitrary: out) (auto simp: validName_def)

lemma dotsThenNames_elem: "dotsThenNames xs \<Longrightarrow> x \<in> set xs \<Longrightarrow> x = ''..'' \<or> validName x"
  by (induction xs) (auto split: if_splits)

lemma dotsThenNames_snoc_valid:
  "dotsThenNames xs \<Longrightarrow> validName n \<Longrightarrow> dotsThenNames (xs @ [n])"
  by (induction xs) (auto split: if_splits)

lemma dotsThenNames_butlast: "dotsThenNames xs \<Longrightarrow> dotsThenNames (butlast xs)"
  by (induction xs) (auto split: if_splits dest: in_set_butlastD)

lemma dotsThenNames_snoc_dots:
  "dotsThenNames xs \<Longrightarrow> xs = [] \<or> last xs = ''..'' \<Longrightarrow> dotsThenNames (xs @ [''..''])"
proof (induction xs)
  case Nil
  then show ?case by simp
next
  case (Cons x xs)
  show ?case
  proof (cases "x = ''..''")
    case True
    with Cons show ?thesis by (cases "xs = []") auto
  next
    case False
    with Cons.prems have v: "\<forall>y \<in> set (x # xs). validName y" by simp
    from Cons.prems(2) have "last (x # xs) = ''..''" by simp
    moreover have "last (x # xs) \<in> set (x # xs)" by (rule last_in_set) simp
    ultimately have "validName ''..''" using v by metis
    then show ?thesis by (simp add: validName_def)
  qed
qed

lemma dotsThenNames_before_dots:
  "dotsThenNames (as @ ''..'' # bs) \<Longrightarrow> a \<in> set as \<Longrightarrow> a = ''..''"
  by (induction as) (auto split: if_splits simp: validName_def)

lemma cleanList_elem: "cleanList r xs \<Longrightarrow> x \<in> set xs \<Longrightarrow> x = ''..'' \<or> validName x"
  by (auto simp: cleanList_def dest: dotsThenNames_elem split: if_splits)

lemma cleanList_sep_free: "cleanList r xs \<Longrightarrow> x \<in> set xs \<Longrightarrow> CHR ''/'' \<notin> set x"
  by (drule (1) cleanList_elem) (auto simp: validName_def)

lemma cleanList_nonempty: "cleanList r xs \<Longrightarrow> x \<in> set xs \<Longrightarrow> x \<noteq> [] \<and> x \<noteq> ''.''"
  by (drule (1) cleanList_elem) (auto simp: validName_def)

lemma cleanList_snoc_valid: "cleanList r xs \<Longrightarrow> validName n \<Longrightarrow> cleanList r (xs @ [n])"
  by (auto simp: cleanList_def dotsThenNames_snoc_valid)

lemma cleanList_Nil: "cleanList r []"
  by (simp add: cleanList_def)

lemma cleanElements_cleanList:
  "cleanList r out \<Longrightarrow> \<forall>e \<in> set es. CHR ''/'' \<notin> set e \<Longrightarrow> cleanList r (cleanElements r out es)"
proof (induction es arbitrary: out)
  case Nil
  then show ?case by simp
next
  case (Cons e es)
  from Cons.prems have rest: "\<forall>e \<in> set es. CHR ''/'' \<notin> set e" and e: "CHR ''/'' \<notin> set e"
    by simp_all
  consider "e = [] \<or> e = ''.''" | "e = ''..''" | "validName e"
    using e by (auto simp: validName_def)
  then show ?case
  proof cases
    case 1
    then show ?thesis using Cons.IH [OF Cons.prems(1) rest] by auto
  next
    case 2
    show ?thesis
    proof (cases "out \<noteq> [] \<and> last out \<noteq> ''..''")
      case True
      have "cleanList r (butlast out)"
        using Cons.prems(1) by (auto simp: cleanList_def dotsThenNames_butlast dest: in_set_butlastD)
      from Cons.IH [OF this rest] show ?thesis using 2 True by simp
    next
      case False
      show ?thesis
      proof (cases r)
        case True
        then show ?thesis
          using Cons.IH [OF Cons.prems(1) rest] 2 False by (cases "out = []") simp_all
      next
        case nr: False
        have "cleanList r (out @ [''..''])"
          using Cons.prems(1) False nr by (auto simp: cleanList_def intro: dotsThenNames_snoc_dots)
        from Cons.IH [OF this rest] show ?thesis
          using 2 False nr by (cases "out = []") simp_all
      qed
    qed
  next
    case 3
    have "cleanList r (out @ [e])"
      using Cons.prems(1) 3 by (rule cleanList_snoc_valid)
    from Cons.IH [OF this rest] show ?thesis using 3 by (simp add: validName_def)
  qed
qed

lemma cleanElements_id: "cleanList r (out @ xs) \<Longrightarrow> cleanElements r out xs = out @ xs"
proof (induction xs arbitrary: out)
  case Nil
  then show ?case by simp
next
  case (Cons x xs)
  from Cons.prems have c: "cleanList r ((out @ [x]) @ xs)" by simp
  have x: "x = ''..'' \<or> validName x"
    using Cons.prems by (rule cleanList_elem) simp
  show ?case
  proof (cases "x = ''..''")
    case True
    have nr: "\<not> r"
      using Cons.prems True by (auto simp: cleanList_def validName_def)
    then have d: "dotsThenNames (out @ ''..'' # xs)"
      using Cons.prems True by (simp add: cleanList_def)
    have "out = [] \<or> last out = ''..''"
      using dotsThenNames_before_dots [OF d, of "last out"] by (cases "out = []") auto
    then show ?thesis using Cons.IH [OF c] True nr by auto
  next
    case False
    with x have "validName x" by simp
    then show ?thesis using Cons.IH [OF c] by (simp add: validName_def)
  qed
qed

lemma joinElements_Nil_iff:
  "\<forall>x \<in> set xs. x \<noteq> [] \<Longrightarrow> joinElements xs = [] \<longleftrightarrow> xs = []"
  by (induction xs rule: joinElements.induct) auto

lemma hd_joinElements:
  "xs \<noteq> [] \<Longrightarrow> hd xs \<noteq> [] \<Longrightarrow> joinElements xs \<noteq> [] \<and> hd (joinElements xs) = hd (hd xs)"
  by (induction xs rule: joinElements.induct) auto

lemma cleanList_cleaned: "cleanList (rooted p) (cleaned p)"
  unfolding cleaned_def
  using elements_sep_free [of "[]" p]
  by (intro cleanElements_cleanList [OF cleanList_Nil]) simp

lemma Clean_render: "Clean p = render (rooted p) (cleaned p)"
proof (cases "p = []")
  case True
  then show ?thesis by (simp add: Clean_def render_def rooted_def cleaned_def)
next
  case False
  have "\<forall>x \<in> set (cleaned p). x \<noteq> []"
    using cleanList_nonempty [OF cleanList_cleaned] by blast
  then have "joinElements (cleaned p) = [] \<longleftrightarrow> cleaned p = []"
    by (rule joinElements_Nil_iff)
  then have j: "joinElements (cleanElements (rooted p) [] (elements [] p)) = [] \<longleftrightarrow>
      cleanElements (rooted p) [] (elements [] p) = []"
    by (simp add: cleaned_def)
  have h: "(hd p = CHR ''/'') = rooted p"
    using False by (simp add: rooted_def)
  show ?thesis
    unfolding Clean_def Let_def h using False j
    by (cases "rooted p") (simp_all add: render_def cleaned_def)
qed

lemma cleanList_hd:
  assumes "cleanList r xs" and "xs \<noteq> []"
  shows "hd xs \<noteq> []" and "hd (hd xs) \<noteq> CHR ''/''"
proof -
  have m: "hd xs \<in> set xs" using assms(2) by simp
  show ne: "hd xs \<noteq> []" using cleanList_nonempty [OF assms(1) m] by simp
  have "CHR ''/'' \<notin> set (hd xs)" using cleanList_sep_free [OF assms(1) m] .
  moreover have "hd (hd xs) \<in> set (hd xs)" using ne by simp
  ultimately show "hd (hd xs) \<noteq> CHR ''/''" by metis
qed

lemma rooted_render: "cleanList r xs \<Longrightarrow> rooted (render r xs) = r"
proof (cases r)
  case True
  then show ?thesis by (simp add: render_def rooted_def)
next
  case False
  assume c: "cleanList r xs"
  show ?thesis
  proof (cases "xs = []")
    case True
    with False show ?thesis by (simp add: render_def rooted_def)
  next
    case ne: False
    from cleanList_hd [OF c ne] hd_joinElements [OF ne]
    show ?thesis using False ne by (simp add: render_def rooted_def)
  qed
qed

lemma elements_render:
  assumes "cleanList r xs" and "xs \<noteq> []"
  shows "elements [] (render r xs) = (if r then [[]] else []) @ xs"
proof -
  have sf: "\<forall>x \<in> set xs. CHR ''/'' \<notin> set x"
    using cleanList_sep_free [OF assms(1)] by blast
  have e: "elements [] (joinElements xs) = xs"
    using assms(2) sf by (rule elements_joinElements)
  show ?thesis using assms(2) e by (simp add: render_def)
qed

lemma cleaned_render: "cleanList r xs \<Longrightarrow> cleaned (render r xs) = xs"
proof -
  assume c: "cleanList r xs"
  have r: "rooted (render r xs) = r" using c by (rule rooted_render)
  show ?thesis
  proof (cases "xs = []")
    case True
    then show ?thesis by (cases r) (simp_all add: cleaned_def r, simp_all add: render_def)
  next
    case False
    have "cleanElements r [] xs = xs"
      using cleanElements_id [of r "[]" xs] c by simp
    then show ?thesis
      unfolding cleaned_def r elements_render [OF c False] by (cases r) simp_all
  qed
qed

lemma Clean_idem: "cleanList r xs \<Longrightarrow> Clean (render r xs) = render r xs"
  by (simp add: Clean_render rooted_render cleaned_render)

lemma validName_not_rooted: "validName n \<Longrightarrow> \<not> rooted n"
  by (cases n) (auto simp: validName_def rooted_def)

lemma Join_render:
  assumes "validName n"
  shows "Join p n = render (rooted p) (cleaned p @ [n])"
proof (cases "p = []")
  case True
  have "cleaned n = [n]"
    using assms by (simp add: cleaned_def elements_no_sep validName_def)
  moreover have "cleaned p = []" "\<not> rooted p"
    using True by (simp_all add: cleaned_def rooted_def)
  ultimately show ?thesis
    using True assms by (simp add: Join_def Clean_render validName_not_rooted validName_def)
next
  case False
  have r: "rooted (p @ CHR ''/'' # n) = rooted p"
    using False by (simp add: rooted_def)
  have "elements [] (p @ ''/'' @ n) = elements [] p @ [n]"
    using assms by (simp add: elements_append_sep elements_no_sep validName_def)
  then have "cleaned (p @ ''/'' @ n) = cleaned p @ [n]"
    using assms by (simp add: cleaned_def r cleanElements_snoc_valid)
  with False show ?thesis by (simp add: Join_def Clean_render r)
qed

lemma dropCommon_prefix: "dropCommon xs (xs @ ys) = ([], ys)"
  by (induction xs) simp_all

lemma joinElements_dot:
  assumes "cleanList r xs"
  shows "joinElements xs \<noteq> ''.''"
proof
  assume j: "joinElements xs = ''.''"
  then have ne: "xs \<noteq> []" by auto
  have "\<forall>x \<in> set xs. CHR ''/'' \<notin> set x"
    using cleanList_sep_free [OF assms] by blast
  with ne have "elements [] (joinElements xs) = xs" by (rule elements_joinElements)
  with j have "xs = [''.'']" by simp
  with cleanList_nonempty [OF assms, of "''.''"] show False by simp
qed

lemma pathElements_render:
  assumes "cleanList r xs"
  shows "pathElements (if render r xs = ''.'' then [] else render r xs)
         = (if r then [[]] else []) @ xs"
proof (cases "xs = []")
  case True
  then show ?thesis by (cases r) (simp_all add: render_def pathElements_def)
next
  case False
  have nd: "render r xs \<noteq> ''.''"
    using joinElements_dot [OF assms] False by (simp add: render_def)
  have "last xs \<in> set xs" using False by simp
  then have "last xs \<noteq> []" using cleanList_nonempty [OF assms] by blast
  then show ?thesis
    using False nd by (simp add: pathElements_def elements_render [OF assms False])
qed

lemma Rel_render:
  assumes "cleanList (rooted start) (cleaned start @ rel)" and "rel \<noteq> []"
  shows "Rel start (render (rooted start) (cleaned start @ rel)) = Inr (joinElements rel)"
proof -
  let ?r = "rooted start" and ?A = "cleaned start"
  let ?targ = "render ?r (?A @ rel)" and ?base = "render ?r ?A"
  have cA: "cleanList ?r ?A" by (rule cleanList_cleaned)
  have ct: "Clean ?targ = ?targ" using assms(1) by (rule Clean_idem)
  have cb: "Clean start = ?base" by (rule Clean_render)
  have neq: "?targ \<noteq> ?base"
  proof
    assume "?targ = ?base"
    then have "cleaned ?targ = cleaned ?base" by simp
    then show False
      using assms(2) by (simp add: cleaned_render [OF assms(1)] cleaned_render [OF cA])
  qed
  have nd: "?targ \<noteq> ''.''"
    using joinElements_dot [OF assms(1)] assms(2) by (simp add: render_def)
  let ?base' = "if ?base = ''.'' then [] else ?base"
  have bs: "(?base' \<noteq> [] \<and> hd ?base' = CHR ''/'') = ?r"
  proof (cases "?base = ''.''")
    case True
    then have "rooted ?base = False" by (simp add: rooted_def)
    then show ?thesis using True rooted_render [OF cA] by simp
  next
    case False
    then show ?thesis using rooted_render [OF cA] by (simp add: rooted_def)
  qed
  have ts: "(?targ \<noteq> [] \<and> hd ?targ = CHR ''/'') = ?r"
    using rooted_render [OF assms(1)] by (simp add: rooted_def)
  have pb: "pathElements ?base' = (if ?r then [[]] else []) @ ?A"
    by (rule pathElements_render [OF cA])
  have pt: "pathElements ?targ = ((if ?r then [[]] else []) @ ?A) @ rel"
    using pathElements_render [OF assms(1)] nd by simp
  have dc: "dropCommon (pathElements ?base') (pathElements ?targ) = ([], rel)"
    unfolding pb pt by (rule dropCommon_prefix)
  show ?thesis
    unfolding Rel_def ct cb Let_def using neq bs ts dc by simp
qed

section \<open>The paths of the walk\<close>

lemma cleanList_append_valid:
  "cleanList r xs \<Longrightarrow> \<forall>n \<in> set ys. validName n \<Longrightarrow> cleanList r (xs @ ys)"
proof (induction ys arbitrary: xs)
  case Nil
  then show ?case by simp
next
  case (Cons y ys)
  have "cleanList r ((xs @ [y]) @ ys)"
    using Cons.prems by (intro Cons.IH cleanList_snoc_valid) simp_all
  then show ?case by simp
qed

lemma under_step:
  assumes "under start path rel" and "validName n"
  shows "under start (Join path n) (rel @ [n])"
    and "Rel start (Join path n) = Inr (joinElements (rel @ [n]))"
proof -
  let ?r = "rooted start" and ?A = "cleaned start"
  have v: "\<forall>m \<in> set (rel @ [n]). validName m"
    using assms by (simp add: under_def)
  have c: "cleanList ?r (?A @ rel)"
    using assms(1) by (intro cleanList_append_valid cleanList_cleaned) (simp add: under_def)
  have c': "cleanList ?r (?A @ rel @ [n])"
    using v by (intro cleanList_append_valid cleanList_cleaned)
  have p: "rooted path = ?r \<and> cleaned path = ?A @ rel"
  proof (cases "rel = []")
    case True
    with assms(1) show ?thesis by (simp add: under_def)
  next
    case False
    with assms(1) have "path = render ?r (?A @ rel)" by (simp add: under_def)
    then show ?thesis by (simp add: rooted_render [OF c] cleaned_render [OF c])
  qed
  have j: "Join path n = render ?r (?A @ rel @ [n])"
    using p by (simp add: Join_render [OF assms(2)])
  show "under start (Join path n) (rel @ [n])"
    using v j by (simp add: under_def)
  show "Rel start (Join path n) = Inr (joinElements (rel @ [n]))"
    unfolding j using Rel_render [OF c'] by simp
qed

lemma under_start: "under start start []"
  by (simp add: under_def)

lemma readItems_IsDir_under:
  assumes "under start path rel" and "validName n"
  shows "readItems path start (IsDir n l # rest) F f =
     (if n \<noteq> FolderToIgnore then
        (case readFolder (Join path n) start l (AList.update (joinElements (rel @ [n])) () F) f of
           (F', f', Some err) \<Rightarrow> (F', f', Some err)
         | (F', f', None) \<Rightarrow> readItems path start rest F' f')
      else readItems path start rest F f)"
  using under_step(2) [OF assms] by (simp add: readItems.simps Let_def)

lemma readItems_NotDir_under:
  assumes "under start path rel" and "validName n"
  shows "readItems path start (NotDir n info # rest) F f =
     (case info of
        None \<Rightarrow> (F, f, Some ErrInfo)
      | Some i \<Rightarrow>
          if Mode i AND ModeSymlink \<noteq> ModeSymlink
          then readItems path start rest F (AList.update (joinElements (rel @ [n])) (Size i) f)
          else readItems path start rest F f)"
  using under_step(2) [OF assms] by (simp add: readItems.simps Let_def)

section \<open>Properties of the tree indexer\<close>

lemma walk_withoutIgnored:
  "under start path rel \<Longrightarrow> validListing l \<Longrightarrow>
   readFolder path start (withoutIgnored l) F f = readFolder path start l F f"
  "under start path rel \<Longrightarrow> validEntries items \<Longrightarrow>
   readItems path start (withoutIgnoredEntries items) F f = readItems path start items F f"
proof (induction l and items arbitrary: path rel F f and path rel F f
    rule: validListing_validEntries.induct)
  case 1
  show ?case by simp
next
  case (2 items)
  then show ?case by simp
next
  case 3
  show ?case by simp
next
  case (4 name listing rest)
  from "4.prems" have u: "under start path rel" and n: "validName name"
    and vl: "validListing listing" and vr: "validEntries rest"
    by simp_all
  note sub = "4.IH"(1) [OF under_step(1) [OF u n] vl]
  note tail = "4.IH"(2) [OF u vr]
  show ?case
  proof (cases "name = FolderToIgnore")
    case True
    have "readItems path start (IsDir name listing # rest) F f = readItems path start rest F f"
      unfolding readItems_IsDir_under [OF u n] using True by simp
    with True show ?thesis by (simp add: tail)
  next
    case False
    have "readItems path start (IsDir name (withoutIgnored listing) # withoutIgnoredEntries rest) F f
        = readItems path start (IsDir name listing # rest) F f"
      unfolding readItems_IsDir_under [OF u n] by (simp add: sub tail)
    with False show ?thesis by simp
  qed
next
  case (5 name info rest)
  from "5.prems" have u: "under start path rel" and n: "validName name"
    and vr: "validEntries rest"
    by simp_all
  note tail = "5.IH" [OF u vr]
  have "readItems path start (NotDir name info # withoutIgnoredEntries rest) F f
      = readItems path start (NotDir name info # rest) F f"
    unfolding readItems_NotDir_under [OF u n] by (simp add: tail split: option.splits)
  then show ?case by simp
qed

lemma walk_withoutSymlinks:
  "under start path rel \<Longrightarrow> validListing l \<Longrightarrow>
   readFolder path start (withoutSymlinks l) F f = readFolder path start l F f"
  "under start path rel \<Longrightarrow> validEntries items \<Longrightarrow>
   readItems path start (withoutSymlinkEntries items) F f = readItems path start items F f"
proof (induction l and items arbitrary: path rel F f and path rel F f
    rule: validListing_validEntries.induct)
  case 1
  show ?case by simp
next
  case (2 items)
  then show ?case by simp
next
  case 3
  show ?case by simp
next
  case (4 name listing rest)
  from "4.prems" have u: "under start path rel" and n: "validName name"
    and vl: "validListing listing" and vr: "validEntries rest"
    by simp_all
  note sub = "4.IH"(1) [OF under_step(1) [OF u n] vl]
  note tail = "4.IH"(2) [OF u vr]
  have "readItems path start (IsDir name (withoutSymlinks listing) # withoutSymlinkEntries rest) F f
      = readItems path start (IsDir name listing # rest) F f"
    unfolding readItems_IsDir_under [OF u n] by (simp add: sub tail)
  then show ?case by simp
next
  case (5 name info rest)
  from "5.prems" have u: "under start path rel" and n: "validName name"
    and vr: "validEntries rest"
    by simp_all
  note tail = "5.IH" [OF u vr]
  show ?case
  proof (cases "isSymlink info")
    case True
    then obtain i where i: "info = Some i" "Mode i AND ModeSymlink = ModeSymlink"
      by (auto simp: isSymlink_def split: option.splits)
    have "readItems path start (NotDir name info # rest) F f = readItems path start rest F f"
      unfolding readItems_NotDir_under [OF u n] using i by simp
    with True show ?thesis by (simp add: tail)
  next
    case False
    have "readItems path start (NotDir name info # withoutSymlinkEntries rest) F f
        = readItems path start (NotDir name info # rest) F f"
      unfolding readItems_NotDir_under [OF u n] by (simp add: tail split: option.splits)
    with False show ?thesis by simp
  qed
qed

lemma elements_relative:
  "\<forall>m \<in> set rel. validName m \<Longrightarrow> validName n \<Longrightarrow>
   elements [] (joinElements (rel @ [n])) = rel @ [n]"
  by (rule elements_joinElements) (auto simp: validName_def)

lemma walk_noIgnored:
  "under start path rel \<Longrightarrow> FolderToIgnore \<notin> set rel \<Longrightarrow> validListing l \<Longrightarrow>
   noIgnored F f \<Longrightarrow> readFolder path start l F f = (F', f', e) \<Longrightarrow> noIgnored F' f'"
  "under start path rel \<Longrightarrow> FolderToIgnore \<notin> set rel \<Longrightarrow> validEntries items \<Longrightarrow>
   noIgnored F f \<Longrightarrow> readItems path start items F f = (F', f', e) \<Longrightarrow> noIgnored F' f'"
proof (induction l and items arbitrary: path rel F f F' f' e and path rel F f F' f' e
    rule: validListing_validEntries.induct)
  case 1
  then show ?case by simp
next
  case (2 items)
  from "2.IH" [OF "2.prems"(1,2) _ "2.prems"(4)] "2.prems"(3,5) show ?case by simp
next
  case 3
  then show ?case by simp
next
  case (4 name listing rest)
  from "4.prems" have u: "under start path rel" and n: "validName name"
    and vl: "validListing listing" and vr: "validEntries rest"
    and ni: "FolderToIgnore \<notin> set rel" and inv: "noIgnored F f"
    by simp_all
  have vrel: "\<forall>m \<in> set rel. validName m" using u by (simp add: under_def)
  note eq = "4.prems"(5) [unfolded readItems_IsDir_under [OF u n]]
  show ?case
  proof (cases "name = FolderToIgnore")
    case True
    with eq have "readItems path start rest F f = (F', f', e)" by simp
    from "4.IH"(2) [OF u ni vr inv this] show ?thesis .
  next
    case False
    let ?k = "joinElements (rel @ [name])"
    have inv1: "noIgnored (AList.update ?k () F) f"
      using inv ni False by (auto simp: noIgnored_def keys_update elements_relative [OF vrel n])
    obtain F1 f1 e1 where r: "readFolder (Join path name) start listing (AList.update ?k () F) f = (F1, f1, e1)"
      by (cases "readFolder (Join path name) start listing (AList.update ?k () F) f") auto
    have inv2: "noIgnored F1 f1"
      using "4.IH"(1) [OF under_step(1) [OF u n] _ vl inv1 r] ni False by simp
    show ?thesis
    proof (cases e1)
      case None
      with eq False r have "readItems path start rest F1 f1 = (F', f', e)" by simp
      from "4.IH"(2) [OF u ni vr inv2 this] show ?thesis .
    next
      case (Some err)
      with eq False r have "F' = F1" "f' = f1" by simp_all
      with inv2 show ?thesis by simp
    qed
  qed
next
  case (5 name info rest)
  from "5.prems" have u: "under start path rel" and n: "validName name"
    and vr: "validEntries rest"
    and ni: "FolderToIgnore \<notin> set rel" and inv: "noIgnored F f"
    by simp_all
  have vrel: "\<forall>m \<in> set rel. validName m" using u by (simp add: under_def)
  note eq = "5.prems"(5) [unfolded readItems_NotDir_under [OF u n]]
  let ?k = "joinElements (rel @ [name])"
  show ?case
  proof (cases info)
    case None
    with eq inv show ?thesis by simp
  next
    case (Some i)
    show ?thesis
    proof (cases "Mode i AND ModeSymlink \<noteq> ModeSymlink")
      case True
      have inv1: "noIgnored F (AList.update ?k (Size i) f)"
        using inv ni by (auto simp: noIgnored_def keys_update elements_relative [OF vrel n])
      from eq Some True have "readItems path start rest F (AList.update ?k (Size i) f) = (F', f', e)"
        by simp
      from "5.IH" [OF u ni vr inv1 this] show ?thesis .
    next
      case False
      with eq Some have "readItems path start rest F f = (F', f', e)" by simp
      from "5.IH" [OF u ni vr inv this] show ?thesis .
    qed
  qed
qed

lemma set_update_cases:
  "e \<in> set (AList.update k v m) \<Longrightarrow> e = (k, v) \<or> e \<in> set m"
  by (induction m) (auto split: if_splits)

lemma backed_update:
  "backed X f \<Longrightarrow> (k, i) \<in> X \<Longrightarrow> Mode i AND ModeSymlink \<noteq> ModeSymlink \<Longrightarrow>
   backed X (AList.update k (Size i) f)"
  unfolding backed_def by (auto dest!: set_update_cases)

lemma walk_backed:
  "under start path rel \<Longrightarrow> validListing l \<Longrightarrow> filesOf rel l \<subseteq> X \<Longrightarrow>
   backed X f \<Longrightarrow> readFolder path start l F f = (F', f', e) \<Longrightarrow> backed X f'"
  "under start path rel \<Longrightarrow> validEntries items \<Longrightarrow> filesOfEntries rel items \<subseteq> X \<Longrightarrow>
   backed X f \<Longrightarrow> readItems path start items F f = (F', f', e) \<Longrightarrow> backed X f'"
proof (induction l and items arbitrary: path rel F f F' f' e and path rel F f F' f' e
    rule: validListing_validEntries.induct)
  case 1
  then show ?case by simp
next
  case (2 items)
  from "2.IH" [OF "2.prems"(1) _ _ "2.prems"(4)] "2.prems"(2,3,5) show ?case by simp
next
  case 3
  then show ?case by simp
next
  case (4 name listing rest)
  from "4.prems" have u: "under start path rel" and n: "validName name"
    and vl: "validListing listing" and vr: "validEntries rest"
    and sl: "filesOf (rel @ [name]) listing \<subseteq> X" and sr: "filesOfEntries rel rest \<subseteq> X"
    and inv: "backed X f"
    by simp_all
  note eq = "4.prems"(5) [unfolded readItems_IsDir_under [OF u n]]
  show ?case
  proof (cases "name = FolderToIgnore")
    case True
    with eq have "readItems path start rest F f = (F', f', e)" by simp
    from "4.IH"(2) [OF u vr sr inv this] show ?thesis .
  next
    case False
    let ?k = "joinElements (rel @ [name])"
    obtain F1 f1 e1 where r: "readFolder (Join path name) start listing (AList.update ?k () F) f = (F1, f1, e1)"
      by (cases "readFolder (Join path name) start listing (AList.update ?k () F) f") auto
    have inv2: "backed X f1"
      using "4.IH"(1) [OF under_step(1) [OF u n] vl sl inv r] .
    show ?thesis
    proof (cases e1)
      case None
      with eq False r have "readItems path start rest F1 f1 = (F', f', e)" by simp
      from "4.IH"(2) [OF u vr sr inv2 this] show ?thesis .
    next
      case (Some err)
      with eq False r have "f' = f1" by simp
      with inv2 show ?thesis by simp
    qed
  qed
next
  case (5 name info rest)
  from "5.prems" have u: "under start path rel" and n: "validName name"
    and vr: "validEntries rest" and sr: "filesOfEntries rel rest \<subseteq> X"
    and inv: "backed X f"
    by simp_all
  note eq = "5.prems"(5) [unfolded readItems_NotDir_under [OF u n]]
  let ?k = "joinElements (rel @ [name])"
  show ?case
  proof (cases info)
    case None
    with eq inv show ?thesis by simp
  next
    case (Some i)
    with "5.prems"(3) have here: "(?k, i) \<in> X" by simp
    show ?thesis
    proof (cases "Mode i AND ModeSymlink \<noteq> ModeSymlink")
      case True
      have inv1: "backed X (AList.update ?k (Size i) f)"
        using inv here True by (rule backed_update)
      from eq Some True have "readItems path start rest F (AList.update ?k (Size i) f) = (F', f', e)"
        by simp
      from "5.IH" [OF u vr sr inv1 this] show ?thesis .
    next
      case False
      with eq Some have "readItems path start rest F f = (F', f', e)" by simp
      from "5.IH" [OF u vr sr inv this] show ?thesis .
    qed
  qed
qed

text \<open>
  Claim C7. In every tree of valid names a directory named \<open>FolderToIgnore\<close> is skipped
  entirely. The walk returns what it returns on the tree without these directories
  and all below them (the same two maps and the same error), so it neither records
  nor enters them. No key of the folder set has \<open>FolderToIgnore\<close> among its path
  elements, and no key of the file index has it among the elements before the last
  (the file's own name): no such directory and nothing below one is recorded.
\<close>

theorem ignored_folders_skipped:
  assumes "validListing root"
  shows "ReadFolder path (withoutIgnored root) = ReadFolder path root
     \<and> (\<forall>k \<in> keys (fst (ReadFolder path root)). FolderToIgnore \<notin> set (elements [] k))
     \<and> (\<forall>k \<in> keys (fst (snd (ReadFolder path root))).
           FolderToIgnore \<notin> set (butlast (elements [] k)))"
proof -
  have same: "ReadFolder path (withoutIgnored root) = ReadFolder path root"
    unfolding ReadFolder_def by (rule walk_withoutIgnored(1) [OF under_start assms])
  obtain F f e where r: "readFolder path path root [] [] = (F, f, e)"
    by (cases "readFolder path path root [] []") auto
  have init: "noIgnored [] []"
    by (simp add: noIgnored_def keys_Nil)
  have "noIgnored F f"
    by (rule walk_noIgnored(1) [OF under_start _ assms init r]) simp
  with same r show ?thesis
    by (simp add: ReadFolder_def noIgnored_def)
qed

theorem ignored_folders_skipped_witness:
  "validListing (Entries [IsDir ''root'' (Entries
       [IsDir ''dont_mirror'' (Entries [NotDir ''secret.txt'' (Some \<lparr>Mode = 420, Size = 7\<rparr>)]),
        NotDir ''a.txt'' (Some \<lparr>Mode = 420, Size = 5\<rparr>)])])
   \<and> ReadFolder ''/src'' (Entries [IsDir ''root'' (Entries
       [IsDir ''dont_mirror'' (Entries [NotDir ''secret.txt'' (Some \<lparr>Mode = 420, Size = 7\<rparr>)]),
        NotDir ''a.txt'' (Some \<lparr>Mode = 420, Size = 5\<rparr>)])])
     = ([(''root'', ())], [(''root/a.txt'', 5)], None)
   \<and> ReadFolder ''/src'' (withoutIgnored (Entries [IsDir ''root'' (Entries
       [IsDir ''dont_mirror'' (Entries [NotDir ''secret.txt'' (Some \<lparr>Mode = 420, Size = 7\<rparr>)]),
        NotDir ''a.txt'' (Some \<lparr>Mode = 420, Size = 5\<rparr>)])]))
     = ([(''root'', ())], [(''root/a.txt'', 5)], None)"
proof -
  let ?root = "Entries [IsDir ''root'' (Entries
       [IsDir ''dont_mirror'' (Entries [NotDir ''secret.txt'' (Some \<lparr>Mode = 420, Size = 7\<rparr>)]),
        NotDir ''a.txt'' (Some \<lparr>Mode = 420, Size = 5\<rparr>)])]"
  have v: "validListing ?root"
    by (simp add: validName_def)
  have r: "ReadFolder ''/src'' ?root = ([(''root'', ())], [(''root/a.txt'', 5)], None)"
    by (simp add: ReadFolder_def readItems.simps Join_def Rel_def Clean_def pathElements_def
        FolderToIgnore_def ModeSymlink_def)
  from ignored_folders_skipped [OF v, of "''/src''"]
  have w: "ReadFolder ''/src'' (withoutIgnored ?root) = ReadFolder ''/src'' ?root"
    by (rule conjunct1)
  have "ReadFolder ''/src'' (withoutIgnored ?root)
      = ([(''root'', ())], [(''root/a.txt'', 5)], None)"
    using w r by (rule trans)
  with v r show ?thesis by (intro conjI)
qed

text \<open>
  Claim C8. In every tree of valid names symbolic links are never recorded in the file
  index. The walk returns what it returns on the tree without its symbolic links, and
  every entry \<open>(k, sz)\<close> of the file index is backed by an entry of the tree at the path
  \<open>k\<close> that is not a directory, whose mode has no \<open>ModeSymlink\<close> bit and whose size
  is \<open>sz\<close>.
\<close>

theorem symlinks_not_recorded:
  assumes "validListing root"
  shows "ReadFolder path (withoutSymlinks root) = ReadFolder path root
     \<and> (\<forall>(k, sz) \<in> set (fst (snd (ReadFolder path root))).
           \<exists>i. (k, i) \<in> filesOf [] root \<and> Mode i AND ModeSymlink \<noteq> ModeSymlink \<and> Size i = sz)"
proof -
  have same: "ReadFolder path (withoutSymlinks root) = ReadFolder path root"
    unfolding ReadFolder_def by (rule walk_withoutSymlinks(1) [OF under_start assms])
  obtain F f e where r: "readFolder path path root [] [] = (F, f, e)"
    by (cases "readFolder path path root [] []") auto
  have init: "backed (filesOf [] root) []"
    by (simp add: backed_def)
  have "backed (filesOf [] root) f"
    by (rule walk_backed(1) [OF under_start assms _ init r]) simp
  with same r show ?thesis
    by (simp add: ReadFolder_def backed_def)
qed

theorem symlinks_not_recorded_witness:
  "validListing (Entries [NotDir ''file'' (Some \<lparr>Mode = 420, Size = 5\<rparr>),
                         NotDir ''link'' (Some \<lparr>Mode = 134218239, Size = 4\<rparr>)])
   \<and> ReadFolder ''src'' (Entries [NotDir ''file'' (Some \<lparr>Mode = 420, Size = 5\<rparr>),
                                   NotDir ''link'' (Some \<lparr>Mode = 134218239, Size = 4\<rparr>)])
     = ([], [(''file'', 5)], None)
   \<and> ReadFolder ''src'' (withoutSymlinks
        (Entries [NotDir ''file'' (Some \<lparr>Mode = 420, Size = 5\<rparr>),
                  NotDir ''link'' (Some \<lparr>Mode = 134218239, Size = 4\<rparr>)]))
     = ([], [(''file'', 5)], None)"
proof -
  let ?root = "Entries [NotDir ''file'' (Some \<lparr>Mode = 420, Size = 5\<rparr>),
                        NotDir ''link'' (Some \<lparr>Mode = 134218239, Size = 4\<rparr>)]"
  have v: "validListing ?root"
    by (simp add: validName_def)
  have r: "ReadFolder ''src'' ?root = ([], [(''file'', 5)], None)"
    by (simp add: ReadFolder_def readItems.simps Join_def Rel_def Clean_def pathElements_def
        ModeSymlink_def)
  from symlinks_not_recorded [OF v, of "''src''"]
  have w: "ReadFolder ''src'' (withoutSymlinks ?root) = ReadFolder ''src'' ?root"
    by (rule conjunct1)
  have "ReadFolder ''src'' (withoutSymlinks ?root) = ([], [(''file'', 5)], None)"
    using w r by (rule trans)
  with v r show ?thesis by (intro conjI)
qed

end
